theory Spec2Isabelle
  imports Main "HOL-Library.Multiset" "HOL-Library.Sublist" "HOL-Library.AList"
begin

section \<open>Strings and lists as Python has them\<close>

text \<open>
  Python's \<^verbatim>\<open>s.split(".")\<close>: the pieces of \<open>s\<close> between the dots. The result is never
  empty: a string without a dot is its own single piece, and the empty string gives one
  empty piece.
\<close>

fun split_dots :: "string \<Rightarrow> string list" where
  "split_dots [] = [[]]"
| "split_dots (c # cs) =
     (if c = CHR ''.'' then [] # split_dots cs
      else (case split_dots cs of
              p # ps \<Rightarrow> (c # p) # ps
            | [] \<Rightarrow> [[c]]))"

text \<open>Python's \<^verbatim>\<open>".".join(parts)\<close>.\<close>

fun join_dots :: "string list \<Rightarrow> string" where
  "join_dots [] = []"
| "join_dots [p] = p"
| "join_dots (p # q # ps) = p @ CHR ''.'' # join_dots (q # ps)"

text \<open>
  Python's slice \<^verbatim>\<open>xs[:stop]\<close>: a negative \<open>stop\<close> counts from the end, and a bound that
  falls outside the list is clamped instead of raising.
\<close>

definition slice_to :: "'a list \<Rightarrow> int \<Rightarrow> 'a list" where
  "slice_to xs stop =
     (let n = int (length xs);
          s = (if stop < 0 then max 0 (n + stop) else min stop n)
      in take (nat s) xs)"

text \<open>Python's \<^verbatim>\<open>s.endswith(suf)\<close>.\<close>

definition endswith :: "string \<Rightarrow> string \<Rightarrow> bool" where
  "endswith s suf = (length suf \<le> length s \<and> drop (length s - length suf) s = suf)"

section \<open>Name resolver\<close>

text \<open>
  \<^verbatim>\<open>
  def resolve_from_import(current_fqn, level, module):
      pkg_parts = current_fqn.split(".")[:-1]
      if level:
          pkg_parts = pkg_parts[: -level + 1] if level > 1 else pkg_parts
      if module:
          return ".".join([*pkg_parts, module])
      return ".".join(pkg_parts)
  \<close>
  \<open>level\<close> is a Python integer; \<open>module\<close> is a string or \<^verbatim>\<open>None\<close>. The test
  \<^verbatim>\<open>if module:\<close> is Python truthiness: it fails for \<^verbatim>\<open>None\<close> and for the empty string.
\<close>

definition resolve_from_import :: "string \<Rightarrow> int \<Rightarrow> string option \<Rightarrow> string" where
  "resolve_from_import current_fqn level module =
     (let pkg_parts = slice_to (split_dots current_fqn) (- 1);
          pkg_parts = (if level \<noteq> 0
                       then (if level > 1 then slice_to pkg_parts (- level + 1) else pkg_parts)
                       else pkg_parts)
      in case module of
           Some m \<Rightarrow> if m \<noteq> [] then join_dots (pkg_parts @ [m]) else join_dots pkg_parts
         | None \<Rightarrow> join_dots pkg_parts)"

text \<open>
  The resolver as the specification words it: the enclosing package is the FQN's segments
  without the last one; a level above 1 drops \<open>level - 1\<close> further trailing segments; the
  result is the prefix joined with the module clause when there is one.
\<close>

definition drop_trailing :: "nat \<Rightarrow> 'a list \<Rightarrow> 'a list" where
  "drop_trailing n xs = rev (drop n (rev xs))"

definition resolveRelative_spec :: "string \<Rightarrow> int \<Rightarrow> string option \<Rightarrow> string" where
  "resolveRelative_spec currentFQN level moduleClause =
     (let pkgParts = butlast (split_dots currentFQN);
          prefix = (if level > 1 then drop_trailing (nat (level - 1)) pkgParts else pkgParts)
      in case moduleClause of
           Some m \<Rightarrow> join_dots (prefix @ [m])
         | None \<Rightarrow> join_dots prefix)"

section \<open>Errors and iteration that may raise\<close>

text \<open>
  The exceptions the modelled code can raise. A function that may raise returns
  \<open>py_error + 'a\<close>, with \<open>Inl\<close> for the exception.
\<close>

datatype py_error = KeyError | IndexError | ValueError

text \<open>A \<^verbatim>\<open>for\<close> loop whose body may raise: the first exception ends the loop.\<close>

fun fold_err :: "('a \<Rightarrow> 's \<Rightarrow> py_error + 's) \<Rightarrow> 'a list \<Rightarrow> 's \<Rightarrow> py_error + 's" where
  "fold_err f [] s = Inr s"
| "fold_err f (x # xs) s = (case f x s of Inl e \<Rightarrow> Inl e | Inr s' \<Rightarrow> fold_err f xs s')"

section \<open>Syntax trees and their traversal\<close>

text \<open>
  What \<^verbatim>\<open>ast.parse\<close> returns, as far as the scanner looks at it: a plain import statement
  with the names of its aliases, a from-style import with its level and optional module,
  and any other node with its child nodes in the order \<^verbatim>\<open>ast.iter_child_nodes\<close> yields
  them (for statement lists, the order of the source text). The alias nodes below an
  import statement are neither kind of import and have no children, so they are left out.
\<close>

datatype ast = Import "string list" | ImportFrom int "string option" | Node "ast list"

fun children :: "ast \<Rightarrow> ast list" where
  "children (Node cs) = cs"
| "children (Import names) = []"
| "children (ImportFrom level module) = []"

fun node_count :: "ast \<Rightarrow> nat" where
  "node_count (Node cs) = Suc (sum_list (map node_count cs))"
| "node_count (Import names) = 1"
| "node_count (ImportFrom level module) = 1"

text \<open>
  \<^verbatim>\<open>ast.walk\<close> of the standard library keeps a queue: it takes the first node, puts that
  node's children at the end of the queue and yields the node.
  \<^verbatim>\<open>
  def walk(node):
      todo = deque([node])
      while todo:
          node = todo.popleft()
          todo.extend(iter_child_nodes(node))
          yield node
  \<close>
\<close>

function walk_queue :: "ast list \<Rightarrow> ast list" where
  "walk_queue [] = []"
| "walk_queue (n # todo) = n # walk_queue (todo @ children n)"
  by pat_completeness auto
termination
proof (relation "measure (\<lambda>q. sum_list (map node_count q))")
  fix n :: ast and todo :: "ast list"
  show "(todo @ children n, n # todo) \<in> measure (\<lambda>q. sum_list (map node_count q))"
    by (cases n) simp_all
qed simp

definition ast_walk :: "ast \<Rightarrow> ast list" where
  "ast_walk tree = walk_queue [tree]"

text \<open>The nodes of a tree in the order of the source text: a node before its children.\<close>

fun source_order :: "ast \<Rightarrow> ast list" where
  "source_order (Node cs) = Node cs # concat (map source_order cs)"
| "source_order (Import names) = [Import names]"
| "source_order (ImportFrom level module) = [ImportFrom level module]"

section \<open>The file system as the scanner sees it\<close>

text \<open>
  A directory holds its files and its sub-directories, each list in the order the
  operating system lists them. Of a file the scanner sees the name and what opening,
  reading and parsing it gives: a syntax tree, or \<open>None\<close> when any of the three raises.
  A file system maps an absolute path, as its list of components, to the directory there;
  \<open>None\<close> says that the path is missing or is not a directory.
\<close>

datatype dir = Dir (files: "(string \<times> ast option) list") (subdirs: "(string \<times> dir) list")

type_synonym filesystem = "string list \<Rightarrow> dir option"

text \<open>
  \<^verbatim>\<open>os.walk(top)\<close>, top-down: a directory is yielded before its sub-directories. The loop
  that consumes the walk may empty the list of sub-directories of the directory it was
  just handed (\<^verbatim>\<open>dirs[:] = []\<close>), and the walk then does not descend; \<open>prune\<close> says for
  which directories the consumer does so.
\<close>

fun os_walk :: "(dir \<Rightarrow> bool) \<Rightarrow> string list \<Rightarrow> dir \<Rightarrow> (string list \<times> dir) list" where
  "os_walk prune dirpath (Dir fs ds) =
     (dirpath, Dir fs ds) #
     (if prune (Dir fs ds) then []
      else concat (map (\<lambda>(name, sub). os_walk prune (dirpath @ [name]) sub) ds))"

definition has_file :: "string \<Rightarrow> dir \<Rightarrow> bool" where
  "has_file name d = (name \<in> set (map fst (files d)))"

text \<open>
  \<^verbatim>\<open>PurePath.suffix\<close> of a final path component, as \<^verbatim>\<open>pathlib\<close> of CPython 3.12
  computes it: the part from the last dot on, unless that dot is the first or the last
  character. \<^verbatim>\<open>with_suffix("")\<close> removes it.
\<close>

definition path_suffix :: "string \<Rightarrow> string" where
  "path_suffix name =
     (if CHR ''.'' \<in> set name
      then (let i = length name - 1 - length (takeWhile (\<lambda>c. c \<noteq> CHR ''.'') (rev name))
            in if 0 < i \<and> i < length name - 1 then drop i name else [])
      else [])"

definition with_suffix_empty :: "string \<Rightarrow> string" where
  "with_suffix_empty name = take (length name - length (path_suffix name)) name"

text \<open>
  \<^verbatim>\<open>
  def to_fqn(project_root, file_path):
      rel = file_path.relative_to(project_root).with_suffix("")
      return ".".join(rel.parts)
  \<close>
  \<^verbatim>\<open>relative_to\<close> raises ValueError when the file is not under the root, and
  \<^verbatim>\<open>with_suffix\<close> raises it when the relative path is empty.
\<close>

definition to_fqn :: "string list \<Rightarrow> string list \<Rightarrow> py_error + string" where
  "to_fqn project_root file_path =
     (if \<not> prefix project_root file_path then Inl ValueError
      else (let rel = drop (length project_root) file_path
            in if rel = [] then Inl ValueError
               else Inr (join_dots (butlast rel @ [with_suffix_empty (last rel)]))))"

section \<open>The scanner\<close>

text \<open>
  A module record is the dictionary \<^verbatim>\<open>{"path": ..., "imports": [...]}\<close>, to which the
  classifier adds the keys \<^verbatim>\<open>internal_imports\<close> and \<^verbatim>\<open>external_imports\<close>; until then the
  two keys are absent (\<open>None\<close>). The path is kept as its list of components.
  \<open>module_info\<close> is a Python dictionary, which keeps its keys in insertion order:
  an association list, in which assigning to a key that is present replaces the value in
  place and assigning to a new key appends (\<open>AList.update\<close>).
\<close>

record module_data =
  path :: "string list"
  "imports" :: "string list"
  internal_imports :: "string list option"
  external_imports :: "string list option"

record scanner =
  project_root :: "string list option"
  module_info :: "(string \<times> module_data) list"
  local_packages :: "string set"
  all_local_modules :: "string set"

text \<open>
  \<^verbatim>\<open>
  def _find_local_packages_and_modules(self):
      self.local_packages.clear()
      self.all_local_modules.clear()
      for root, dirs, files in os.walk(self.project_root):
          rel_path = Path(root).relative_to(self.project_root)
          if '__init__.py' in files:
              package_name = ".".join(rel_path.parts)
              self.local_packages.add(package_name)
          for file in files:
              if file.endswith(".py"):
                  module_name = to_fqn(self.project_root, Path(root) / file)
                  self.all_local_modules.add(module_name)
  \<close>
\<close>

definition survey_file :: "string list \<Rightarrow> string list \<Rightarrow> string \<times> ast option \<Rightarrow> scanner
    \<Rightarrow> py_error + scanner" where
  "survey_file root dirpath entry s =
     (if endswith (fst entry) ''.py''
      then (case to_fqn root (dirpath @ [fst entry]) of
              Inl e \<Rightarrow> Inl e
            | Inr module_name \<Rightarrow>
                Inr (s\<lparr>all_local_modules := insert module_name (all_local_modules s)\<rparr>))
      else Inr s)"

definition survey_dir :: "string list \<Rightarrow> string list \<times> dir \<Rightarrow> scanner \<Rightarrow> py_error + scanner" where
  "survey_dir root walked s =
     (let dirpath = fst walked; d = snd walked
      in if \<not> prefix root dirpath then Inl ValueError
         else (let rel_path = drop (length root) dirpath;
                   s1 = (if has_file ''__init__.py'' d
                         then s\<lparr>local_packages := insert (join_dots rel_path) (local_packages s)\<rparr>
                         else s)
               in fold_err (survey_file root dirpath) (files d) s1))"

definition find_local_packages_and_modules :: "string list \<Rightarrow> dir \<Rightarrow> scanner
    \<Rightarrow> py_error + scanner" where
  "find_local_packages_and_modules root d s =
     fold_err (survey_dir root) (os_walk (\<lambda>_. False) root d)
       (s\<lparr>local_packages := {}, all_local_modules := {}\<rparr>)"

text \<open>
  \<^verbatim>\<open>
  def _scan_file(self, path, fqn):
      try:
          with open(path, "r", encoding="utf-8") as f:
              tree = ast.parse(f.read(), filename=str(path))
      except Exception:
          return
      for node in ast.walk(tree):
          if isinstance(node, ast.Import):
              for alias in node.names:
                  self.module_info[fqn]["imports"].append(alias.name)
          elif isinstance(node, ast.ImportFrom):
              imported = resolve_from_import(fqn, node.level, node.module)
              self.module_info[fqn]["imports"].append(imported)
  \<close>
  \<^verbatim>\<open>self.module_info[fqn]\<close> raises KeyError when the record is missing.
\<close>

definition append_import :: "string \<Rightarrow> string \<Rightarrow> (string \<times> module_data) list
    \<Rightarrow> py_error + (string \<times> module_data) list" where
  "append_import fqn name mi =
     (case map_of mi fqn of
        None \<Rightarrow> Inl KeyError
      | Some data \<Rightarrow> Inr (AList.update fqn (data\<lparr>imports := imports data @ [name]\<rparr>) mi))"

fun scan_node :: "string \<Rightarrow> ast \<Rightarrow> (string \<times> module_data) list
    \<Rightarrow> py_error + (string \<times> module_data) list" where
  "scan_node fqn (Import names) mi = fold_err (append_import fqn) names mi"
| "scan_node fqn (ImportFrom level module) mi =
     append_import fqn (resolve_from_import fqn level module) mi"
| "scan_node fqn (Node cs) mi = Inr mi"

definition scan_file :: "ast option \<Rightarrow> string \<Rightarrow> (string \<times> module_data) list
    \<Rightarrow> py_error + (string \<times> module_data) list" where
  "scan_file parsed fqn mi =
     (case parsed of
        None \<Rightarrow> Inr mi
      | Some tree \<Rightarrow> fold_err (scan_node fqn) (ast_walk tree) mi)"

text \<open>
  \<^verbatim>\<open>
  def _categorize_imports(self):
      for fqn, data in self.module_info.items():
          internal_imports = []
          external_imports = []
          for imported_name in data["imports"]:
              if imported_name in self.all_local_modules or \
                 imported_name.split('.')[0] in self.local_packages:
                  internal_imports.append(imported_name)
              else:
                  external_imports.append(imported_name)
          data["internal_imports"] = internal_imports
          data["external_imports"] = external_imports
  \<close>
\<close>

definition is_internal :: "scanner \<Rightarrow> string \<Rightarrow> bool" where
  "is_internal s imported_name =
     (imported_name \<in> all_local_modules s
      \<or> hd (split_dots imported_name) \<in> local_packages s)"

fun categorize_loop :: "scanner \<Rightarrow> string list \<Rightarrow> string list \<times> string list
    \<Rightarrow> string list \<times> string list" where
  "categorize_loop s [] acc = acc"
| "categorize_loop s (imported_name # rest) acc =
     (if is_internal s imported_name
      then categorize_loop s rest (fst acc @ [imported_name], snd acc)
      else categorize_loop s rest (fst acc, snd acc @ [imported_name]))"

definition categorize_data :: "scanner \<Rightarrow> module_data \<Rightarrow> module_data" where
  "categorize_data s data =
     (let lists = categorize_loop s (imports data) ([], [])
      in data\<lparr>internal_imports := Some (fst lists), external_imports := Some (snd lists)\<rparr>)"

definition categorize_imports :: "scanner \<Rightarrow> scanner" where
  "categorize_imports s =
     s\<lparr>module_info := map (\<lambda>(fqn, data). (fqn, categorize_data s data)) (module_info s)\<rparr>"

text \<open>
  \<^verbatim>\<open>
  def scan(self):
      self.module_info.clear()
      if not self.project_root or not self.project_root.is_dir():
          return
      self._find_local_packages_and_modules()
      for root, dirs, files in os.walk(self.project_root):
          if 'pyvenv.cfg' in files:
              dirs[:] = []
              continue
          for file in files:
              if file.endswith(".py"):
                  path = Path(root) / file
                  fqn = to_fqn(self.project_root, path)
                  self.module_info[fqn] = {"path": str(path), "imports": []}
                  self._scan_file(path, fqn)
      self._categorize_imports()
  \<close>
  The file system is an argument of the model; \<open>project_root\<close> is \<open>None\<close> for a scanner
  made without a root.
\<close>

definition new_record :: "string list \<Rightarrow> module_data" where
  "new_record p = \<lparr>path = p, imports = [], internal_imports = None, external_imports = None\<rparr>"

definition scan_entry :: "string list \<Rightarrow> string list \<Rightarrow> string \<times> ast option
    \<Rightarrow> (string \<times> module_data) list \<Rightarrow> py_error + (string \<times> module_data) list" where
  "scan_entry root dirpath entry mi =
     (if endswith (fst entry) ''.py''
      then (let p = dirpath @ [fst entry]
            in case to_fqn root p of
                 Inl e \<Rightarrow> Inl e
               | Inr fqn \<Rightarrow> scan_file (snd entry) fqn (AList.update fqn (new_record p) mi))
      else Inr mi)"

definition scan_dir :: "string list \<Rightarrow> string list \<times> dir \<Rightarrow> (string \<times> module_data) list
    \<Rightarrow> py_error + (string \<times> module_data) list" where
  "scan_dir root walked mi =
     (if has_file ''pyvenv.cfg'' (snd walked) then Inr mi
      else fold_err (scan_entry root (fst walked)) (files (snd walked)) mi)"

definition scan :: "filesystem \<Rightarrow> scanner \<Rightarrow> py_error + scanner" where
  "scan fs s =
     (let s0 = s\<lparr>module_info := []\<rparr>
      in case project_root s0 of
           None \<Rightarrow> Inr s0
         | Some root \<Rightarrow>
             (case fs root of
                None \<Rightarrow> Inr s0
              | Some d \<Rightarrow>
                  (case find_local_packages_and_modules root d s0 of
                     Inl e \<Rightarrow> Inl e
                   | Inr s1 \<Rightarrow>
                       (case fold_err (scan_dir root) (os_walk (has_file ''pyvenv.cfg'') root d)
                               (module_info s1) of
                          Inl e \<Rightarrow> Inl e
                        | Inr mi \<Rightarrow> Inr (categorize_imports (s1\<lparr>module_info := mi\<rparr>))))))"

text \<open>
  \<^verbatim>\<open>
  def build_graph(self):
      graph = {}
      for mod, data in self.module_info.items():
          graph[mod] = set(data.get("internal_imports", []))
      return graph
  \<close>
\<close>

definition build_graph :: "scanner \<Rightarrow> (string \<times> string set) list" where
  "build_graph s =
     fold (\<lambda>(modname, data) graph.
             AList.update modname (case internal_imports data of None \<Rightarrow> {} | Some xs \<Rightarrow> set xs) graph)
       (module_info s) []"

section \<open>The cycle detector\<close>

text \<open>
  \<^verbatim>\<open>
  def strongly_connected_components(graph):
      index = 0
      stack, onstack = [], set()
      indices, lowlink, sccs = {}, {}, []

      def dfs(v):
          nonlocal index
          indices[v] = lowlink[v] = index
          index += 1
          stack.append(v)
          onstack.add(v)
          for w in graph.get(v, ()):
              if w not in indices:
                  dfs(w)
                  lowlink[v] = min(lowlink[v], lowlink[w])
              elif w in onstack:
                  lowlink[v] = min(lowlink[v], indices[w])
          if lowlink[v] == indices[v]:
              comp = []
              while True:
                  w = stack.pop()
                  onstack.remove(w)
                  comp.append(w)
                  if w == v:
                      break
              if len(comp) > 1:
                  sccs.append(comp)

      for v in graph:
          if v not in indices:
              dfs(v)
      return sccs
  \<close>
  The graph is a dictionary from a node to the set of its successors: an association list
  in the dictionary's key order, each set as the list in which the loop over it runs, so
  that a statement for all such lists holds for every iteration order. The variables that
  \<open>dfs\<close> shares with its caller are the fields of a state that it takes and returns.
  \<open>stack\<close> is kept with its top first: \<^verbatim>\<open>append\<close> is \<open>#\<close> and \<^verbatim>\<open>pop\<close> takes the head.
\<close>

record 'v tarjan =
  index :: nat
  stack :: "'v list"
  onstack :: "'v set"
  indices :: "'v \<Rightarrow> nat option"
  lowlink :: "'v \<Rightarrow> nat option"
  sccs :: "'v list list"

text \<open>\<^verbatim>\<open>graph.get(v, ())\<close>: a node that is not a key has no successors.\<close>

definition successors :: "('v \<times> 'v list) list \<Rightarrow> 'v \<Rightarrow> 'v list" where
  "successors graph v = (case map_of graph v of None \<Rightarrow> [] | Some ws \<Rightarrow> ws)"

text \<open>
  The \<^verbatim>\<open>while True\<close> loop: \<^verbatim>\<open>stack.pop()\<close> raises IndexError on an empty stack and
  \<^verbatim>\<open>onstack.remove(w)\<close> raises KeyError when \<open>w\<close> is not in the set.
\<close>

fun pop_component :: "'v \<Rightarrow> 'v list \<Rightarrow> 'v set \<Rightarrow> 'v list
    \<Rightarrow> py_error + ('v list \<times> 'v set \<times> 'v list)" where
  "pop_component v [] ons component = Inl IndexError"
| "pop_component v (w # stk) ons component =
     (if w \<notin> ons then Inl KeyError
      else if w = v then Inr (stk, ons - {w}, component @ [w])
      else pop_component v stk (ons - {w}) (component @ [w]))"

text \<open>The first five statements of \<open>dfs\<close>.\<close>

definition visit :: "'v \<Rightarrow> 'v tarjan \<Rightarrow> 'v tarjan" where
  "visit v st =
     st\<lparr>indices := (indices st)(v \<mapsto> index st),
        lowlink := (lowlink st)(v \<mapsto> index st),
        index := index st + 1,
        stack := v # stack st,
        onstack := insert v (onstack st)\<rparr>"

text \<open>
  \<^verbatim>\<open>lowlink[v] = min(lowlink[v], other)\<close>, where \<open>other\<close> is \<^verbatim>\<open>lowlink[w]\<close> or
  \<^verbatim>\<open>indices[w]\<close>; reading a missing key raises KeyError.
\<close>

definition lower :: "'v \<Rightarrow> nat option \<Rightarrow> 'v tarjan \<Rightarrow> py_error + 'v tarjan" where
  "lower v other st =
     (case lowlink st v of
        None \<Rightarrow> Inl KeyError
      | Some lv \<Rightarrow>
          (case other of
             None \<Rightarrow> Inl KeyError
           | Some n \<Rightarrow> Inr (st\<lparr>lowlink := (lowlink st)(v \<mapsto> min lv n)\<rparr>)))"

text \<open>The statements of \<open>dfs\<close> after its loop over the successors.\<close>

definition close_component :: "'v \<Rightarrow> 'v tarjan \<Rightarrow> py_error + 'v tarjan" where
  "close_component v st =
     (case lowlink st v of
        None \<Rightarrow> Inl KeyError
      | Some lv \<Rightarrow>
          (case indices st v of
             None \<Rightarrow> Inl KeyError
           | Some iv \<Rightarrow>
               if lv = iv
               then (case pop_component v (stack st) (onstack st) [] of
                       Inl e \<Rightarrow> Inl e
                     | Inr (stk, ons, component) \<Rightarrow>
                         Inr (st\<lparr>stack := stk, onstack := ons,
                                 sccs := (if length component > 1 then sccs st @ [component] else sccs st)\<rparr>))
               else Inr st))"

text \<open>
  \<open>dfs\<close> and its loop over the successors that are left. The recursion is nested: the
  loop goes on in the state that the inner call returns. The bound that the interpreter
  puts on the depth of recursion is outside the model.
\<close>

function dfs :: "('v \<times> 'v list) list \<Rightarrow> 'v \<Rightarrow> 'v tarjan \<Rightarrow> py_error + 'v tarjan"
  and dfs_loop :: "('v \<times> 'v list) list \<Rightarrow> 'v \<Rightarrow> 'v list \<Rightarrow> 'v tarjan \<Rightarrow> py_error + 'v tarjan"
where
  "dfs graph v st =
     (case dfs_loop graph v (successors graph v) (visit v st) of
        Inl e \<Rightarrow> Inl e
      | Inr st' \<Rightarrow> close_component v st')"
| "dfs_loop graph v [] st = Inr st"
| "dfs_loop graph v (w # ws) st =
     (if indices st w = None
      then (case dfs graph w st of
              Inl e \<Rightarrow> Inl e
            | Inr st' \<Rightarrow>
                (case lower v (lowlink st' w) st' of
                   Inl e \<Rightarrow> Inl e
                 | Inr st'' \<Rightarrow> dfs_loop graph v ws st''))
      else if w \<in> onstack st
      then (case lower v (indices st w) st of
              Inl e \<Rightarrow> Inl e
            | Inr st' \<Rightarrow> dfs_loop graph v ws st')
      else dfs_loop graph v ws st)"
  by pat_completeness auto

text \<open>
  Termination: every call of \<open>dfs\<close> on a node without an index gives it one, and no call
  takes an index away, so the number of nodes without an index decreases.
\<close>

definition graph_nodes :: "('v \<times> 'v list) list \<Rightarrow> 'v set" where
  "graph_nodes graph = set (map fst graph) \<union> (\<Union>(set ` set (map snd graph)))"

lemma finite_graph_nodes: "finite (graph_nodes graph)"
  by (simp add: graph_nodes_def)

lemma successors_nodes: "set (successors graph v) \<subseteq> graph_nodes graph"
proof (cases "map_of graph v")
  case None
  then show ?thesis by (simp add: successors_def)
next
  case (Some ws)
  then have "(v, ws) \<in> set graph" by (rule map_of_SomeD)
  then have "ws \<in> set (map snd graph)" by force
  then have "set ws \<subseteq> graph_nodes graph" by (auto simp: graph_nodes_def)
  with Some show ?thesis by (simp add: successors_def)
qed

lemma indices_visit: "indices (visit v st) = (indices st)(v \<mapsto> index st)"
  by (simp add: visit_def)

lemma indices_lower: "lower v n st = Inr st' \<Longrightarrow> indices st' = indices st"
  by (auto simp: lower_def split: option.splits)

lemma indices_close_component: "close_component v st = Inr st' \<Longrightarrow> indices st' = indices st"
  by (auto simp: close_component_def split: option.splits if_splits sum.splits)

lemma dfs_visited_mono_partial:
  "dfs_dfs_loop_dom (Inl (graph, v, st)) \<Longrightarrow>
     (\<forall>st'. dfs graph v st = Inr st' \<longrightarrow> insert v (dom (indices st)) \<subseteq> dom (indices st'))"
  "dfs_dfs_loop_dom (Inr (graph, u, ws, st)) \<Longrightarrow>
     (\<forall>st'. dfs_loop graph u ws st = Inr st' \<longrightarrow> dom (indices st) \<subseteq> dom (indices st'))"
proof (induction graph v st and graph u ws st rule: dfs_dfs_loop.pinduct)
  case (1 graph v st)
  show ?case
  proof (intro allI impI)
    fix st' assume r: "dfs graph v st = Inr st'"
    from r 1(1) obtain st1 where l: "dfs_loop graph v (successors graph v) (visit v st) = Inr st1"
      and c: "close_component v st1 = Inr st'"
      by (auto simp: dfs.psimps split: sum.splits)
    from 1(2) l have "dom (indices (visit v st)) \<subseteq> dom (indices st1)" by blast
    with indices_close_component [OF c] show "insert v (dom (indices st)) \<subseteq> dom (indices st')"
      by (simp add: indices_visit)
  qed
next
  case (2 graph v st)
  then show ?case by (simp add: dfs_loop.psimps)
next
  case (3 graph v w ws st)
  show ?case
  proof (intro allI impI)
    fix st' assume r: "dfs_loop graph v (w # ws) st = Inr st'"
    show "dom (indices st) \<subseteq> dom (indices st')"
    proof (cases "indices st w = None")
      case True
      with r 3(1) obtain b ba where d: "dfs graph w st = Inr b"
        and lo: "lower v (lowlink b w) b = Inr ba" and l: "dfs_loop graph v ws ba = Inr st'"
        by (auto simp: dfs_loop.psimps split: sum.splits)
      from 3(2) True d have "dom (indices st) \<subseteq> dom (indices b)" by blast
      moreover from 3(3) True d lo l have "dom (indices ba) \<subseteq> dom (indices st')" by blast
      ultimately show ?thesis using indices_lower [OF lo] by simp
    next
      case False
      show ?thesis
      proof (cases "w \<in> onstack st")
        case True
        with False r 3(1) obtain b where lo: "lower v (indices st w) st = Inr b"
          and l: "dfs_loop graph v ws b = Inr st'"
          by (auto simp: dfs_loop.psimps split: sum.splits)
        from 3(4) False True lo l have "dom (indices b) \<subseteq> dom (indices st')" by blast
        then show ?thesis using indices_lower [OF lo] by simp
      next
        case nons: False
        with False r 3(1) have "dfs_loop graph v ws st = Inr st'"
          by (auto simp: dfs_loop.psimps)
        with 3(5) False nons show ?thesis by blast
      qed
    qed
  qed
qed

definition unvisited :: "('v \<times> 'v list) list \<Rightarrow> 'v set \<Rightarrow> 'v tarjan \<Rightarrow> nat" where
  "unvisited graph extra st = card ((graph_nodes graph \<union> extra) - dom (indices st))"

lemma unvisited_mono:
  "dom (indices st) \<subseteq> dom (indices st') \<Longrightarrow> extra' \<subseteq> extra \<Longrightarrow> finite extra \<Longrightarrow>
   unvisited graph extra' st' \<le> unvisited graph extra st"
  unfolding unvisited_def
  by (rule card_mono) (auto simp: finite_graph_nodes)

fun dfs_measure :: "(('v \<times> 'v list) list \<times> 'v \<times> 'v tarjan)
    + (('v \<times> 'v list) list \<times> 'v \<times> 'v list \<times> 'v tarjan) \<Rightarrow> nat \<times> nat \<times> nat" where
  "dfs_measure (Inl (graph, v, st)) =
     (unvisited graph {v} st + (if v \<in> dom (indices st) then 1 else 0), 0, 0)"
| "dfs_measure (Inr (graph, v, ws, st)) = (unvisited graph (set ws) st, 1, length ws)"

termination dfs
proof (relation "inv_image (less_than <*lex*> less_than <*lex*> less_than) dfs_measure")
  show "wf (inv_image (less_than <*lex*> less_than <*lex*> less_than) dfs_measure)"
    by (intro wf_inv_image wf_lex_prod wf_less_than)
next
  fix graph :: "('v \<times> 'v list) list" and v :: 'v and st :: "'v tarjan"
  have fin: "finite ((graph_nodes graph \<union> {v}) - dom (indices st))"
    by (simp add: finite_graph_nodes)
  have sub: "(graph_nodes graph \<union> set (successors graph v)) - dom (indices (visit v st))
      \<subseteq> ((graph_nodes graph \<union> {v}) - dom (indices st)) - {v}"
    using successors_nodes [of graph v] by (auto simp: indices_visit)
  have "unvisited graph (set (successors graph v)) (visit v st)
      < unvisited graph {v} st + (if v \<in> dom (indices st) then 1 else 0)"
  proof (cases "v \<in> dom (indices st)")
    case True
    have "unvisited graph (set (successors graph v)) (visit v st) \<le> unvisited graph {v} st"
      unfolding unvisited_def using sub fin by (intro card_mono) auto
    with True show ?thesis by simp
  next
    case False
    then have "v \<in> (graph_nodes graph \<union> {v}) - dom (indices st)" by simp
    then have "card (((graph_nodes graph \<union> {v}) - dom (indices st)) - {v})
        < card ((graph_nodes graph \<union> {v}) - dom (indices st))"
      using fin by (intro card_Diff1_less) auto
    moreover have "unvisited graph (set (successors graph v)) (visit v st)
        \<le> card (((graph_nodes graph \<union> {v}) - dom (indices st)) - {v})"
      unfolding unvisited_def using sub fin by (intro card_mono) auto
    ultimately show ?thesis using False by (simp add: unvisited_def)
  qed
  then show "(Inr (graph, v, successors graph v, visit v st), Inl (graph, v, st))
      \<in> inv_image (less_than <*lex*> less_than <*lex*> less_than) dfs_measure"
    by simp
next
  fix graph :: "('v \<times> 'v list) list" and v w :: 'v and ws :: "'v list" and st :: "'v tarjan"
  assume "indices st w = None"
  then have "w \<notin> dom (indices st)" by auto
  moreover have "unvisited graph {w} st \<le> unvisited graph (set (w # ws)) st"
    by (rule unvisited_mono) auto
  ultimately show "(Inl (graph, w, st), Inr (graph, v, w # ws, st))
      \<in> inv_image (less_than <*lex*> less_than <*lex*> less_than) dfs_measure"
    by auto
next
  fix graph :: "('v \<times> 'v list) list" and v w :: 'v and ws :: "'v list"
    and st b ba :: "'v tarjan"
  assume "indices st w = None" and d: "dfs graph w st = Inr b"
    and lo: "lower v (lowlink b w) b = Inr ba"
    and dom: "dfs_dfs_loop_dom (Inl (graph, w, st))"
  from dfs_visited_mono_partial(1) [OF dom] d indices_lower [OF lo]
  have "dom (indices st) \<subseteq> dom (indices ba)" by auto
  then have "unvisited graph (set ws) ba \<le> unvisited graph (set (w # ws)) st"
    by (rule unvisited_mono) auto
  then show "(Inr (graph, v, ws, ba), Inr (graph, v, w # ws, st))
      \<in> inv_image (less_than <*lex*> less_than <*lex*> less_than) dfs_measure"
    by auto
next
  fix graph :: "('v \<times> 'v list) list" and v w :: 'v and ws :: "'v list"
    and st b :: "'v tarjan"
  assume lo: "lower v (indices st w) st = Inr b"
  have "unvisited graph (set ws) b \<le> unvisited graph (set (w # ws)) st"
    by (rule unvisited_mono) (auto simp: indices_lower [OF lo])
  then show "(Inr (graph, v, ws, b), Inr (graph, v, w # ws, st))
      \<in> inv_image (less_than <*lex*> less_than <*lex*> less_than) dfs_measure"
    by auto
next
  fix graph :: "('v \<times> 'v list) list" and v w :: 'v and ws :: "'v list" and st :: "'v tarjan"
  have "unvisited graph (set ws) st \<le> unvisited graph (set (w # ws)) st"
    by (rule unvisited_mono) auto
  then show "(Inr (graph, v, ws, st), Inr (graph, v, w # ws, st))
      \<in> inv_image (less_than <*lex*> less_than <*lex*> less_than) dfs_measure"
    by auto
qed

text \<open>
  The equation of \<open>dfs\<close> is unfolded by hand only, since it applies to every call.
\<close>

declare dfs.simps [simp del]

text \<open>The outer loop over the keys of the graph, from the initial values of the variables.\<close>

definition init_state :: "'v tarjan" where
  "init_state = \<lparr>index = 0, stack = [], onstack = {}, indices = Map.empty, lowlink = Map.empty, sccs = []\<rparr>"

definition visit_key :: "('v \<times> 'v list) list \<Rightarrow> 'v \<Rightarrow> 'v tarjan \<Rightarrow> py_error + 'v tarjan" where
  "visit_key graph v st = (if indices st v = None then dfs graph v st else Inr st)"

definition strongly_connected_components :: "('v \<times> 'v list) list \<Rightarrow> py_error + 'v list list" where
  "strongly_connected_components graph =
     (case fold_err (visit_key graph) (map fst graph) init_state of
        Inl e \<Rightarrow> Inl e
      | Inr st \<Rightarrow> Inr (sccs st))"

section \<open>Notions used to state the properties\<close>

text \<open>
  The first dotted segment of a target: its characters before the first dot.
\<close>

definition first_segment :: "string \<Rightarrow> string" where
  "first_segment t = takeWhile (\<lambda>c. c \<noteq> CHR ''.'') t"

text \<open>
  The entries that one syntax node contributes to the raw import list: every name of a
  plain import statement, the resolved target of a from-style import, nothing otherwise.
\<close>

fun node_entries :: "string \<Rightarrow> ast \<Rightarrow> string list" where
  "node_entries fqn (Import names) = names"
| "node_entries fqn (ImportFrom level module) = [resolve_from_import fqn level module]"
| "node_entries fqn (Node cs) = []"

text \<open>
  The nodes at nesting depth \<open>k\<close> below a node, in the order of the source text.
\<close>

fun at_depth :: "nat \<Rightarrow> ast \<Rightarrow> ast list" where
  "at_depth 0 t = [t]"
| "at_depth (Suc k) t = concat (map (at_depth k) (children t))"

text \<open>
  The source files that the second walk reaches, in the order it reaches them, each with
  its path and with what parsing it gives: the files named \<^verbatim>\<open>*.py\<close> of the directories that
  the walk yields and that hold no \<^verbatim>\<open>pyvenv.cfg\<close>.
\<close>

definition py_files :: "string list \<Rightarrow> dir \<Rightarrow> (string list \<times> ast option) list" where
  "py_files dirpath d =
     map (\<lambda>entry. (dirpath @ [fst entry], snd entry))
       (filter (\<lambda>entry. endswith (fst entry) ''.py'') (files d))"

definition walked_files :: "string list \<Rightarrow> dir \<Rightarrow> (string list \<times> ast option) list" where
  "walked_files root d =
     concat (map (\<lambda>walked. if has_file ''pyvenv.cfg'' (snd walked) then []
                            else py_files (fst walked) (snd walked))
               (os_walk (has_file ''pyvenv.cfg'') root d))"

text \<open>
  The FQN of a file under the root, and the record that scanning one file leaves under
  that FQN before classification.
\<close>

definition the_fqn :: "string list \<Rightarrow> string list \<Rightarrow> string" where
  "the_fqn root p = (case to_fqn root p of Inr fqn \<Rightarrow> fqn | Inl e \<Rightarrow> [])"

fun file_imports :: "string \<Rightarrow> ast option \<Rightarrow> string list" where
  "file_imports fqn None = []"
| "file_imports fqn (Some tree) = concat (map (node_entries fqn) (ast_walk tree))"

definition file_record :: "string list \<Rightarrow> string list \<times> ast option \<Rightarrow> string \<times> module_data" where
  "file_record root file =
     (the_fqn root (fst file),
      \<lparr>path = fst file, imports = file_imports (the_fqn root (fst file)) (snd file),
       internal_imports = None, external_imports = None\<rparr>)"

definition add_record :: "string list \<Rightarrow> string list \<times> ast option
    \<Rightarrow> (string \<times> module_data) list \<Rightarrow> (string \<times> module_data) list" where
  "add_record root file mi = AList.update (fst (file_record root file)) (snd (file_record root file)) mi"

text \<open>
  In a file system no two sub-directories of one directory have the same name.
\<close>

fun distinct_names :: "dir \<Rightarrow> bool" where
  "distinct_names (Dir fs ds) =
     (distinct (map fst ds) \<and> (\<forall>entry \<in> set ds. distinct_names (snd entry)))"

text \<open>
  The graph that a dictionary stands for: an edge leads from a node to each of its
  successors. A strongly connected component is a maximal non-empty set of nodes that all
  reach one another; \<open>scc_of\<close> is the component of a node.
\<close>

definition edges :: "('v \<times> 'v list) list \<Rightarrow> ('v \<times> 'v) set" where
  "edges graph = {(v, w). w \<in> set (successors graph v)}"

definition reaches :: "('v \<times> 'v list) list \<Rightarrow> 'v \<Rightarrow> 'v \<Rightarrow> bool" where
  "reaches graph x y = ((x, y) \<in> (edges graph)\<^sup>*)"

definition is_scc :: "('v \<times> 'v list) list \<Rightarrow> 'v set \<Rightarrow> bool" where
  "is_scc graph S =
     (S \<noteq> {} \<and> (\<forall>x \<in> S. \<forall>y \<in> S. reaches graph x y)
      \<and> (\<forall>T. S \<subseteq> T \<and> (\<forall>x \<in> T. \<forall>y \<in> T. reaches graph x y) \<longrightarrow> T = S))"

definition scc_of :: "('v \<times> 'v list) list \<Rightarrow> 'v \<Rightarrow> 'v set" where
  "scc_of graph x = {y. reaches graph x y \<and> reaches graph y x}"

definition nontrivial :: "'v set \<Rightarrow> bool" where
  "nontrivial S = (\<exists>x \<in> S. \<exists>y \<in> S. x \<noteq> y)"

text \<open>
  The nodes that have an index, those among them that are no longer on the stack, and the
  numbers that the two dictionaries hold for a node that has an index.
\<close>

definition visited :: "'v tarjan \<Rightarrow> 'v set" where
  "visited st = dom (indices st)"

definition finished :: "'v tarjan \<Rightarrow> 'v set" where
  "finished st = visited st - onstack st"

definition idx :: "'v tarjan \<Rightarrow> 'v \<Rightarrow> nat" where
  "idx st x = the (indices st x)"

definition low :: "'v tarjan \<Rightarrow> 'v \<Rightarrow> nat" where
  "low st x = the (lowlink st x)"

text \<open>
  The invariant of the traversal, for the set \<open>G\<close> of the nodes whose call of \<open>dfs\<close> has
  not returned yet. The stack holds its nodes by decreasing index; the finished nodes are
  closed under edges; every successor of a node on the stack whose call has returned has an
  index; a node on the stack reaches the nodes above it and reaches some node of \<open>G\<close>
  that is not above it; the low link of a node on the stack is the index of a node on the
  stack that it reaches; and the components found so far are the strongly connected
  components with two or more nodes that lie within the finished nodes, each once.
\<close>

definition wf_stack :: "'v tarjan \<Rightarrow> bool" where
  "wf_stack st =
     (dom (lowlink st) = dom (indices st)
      \<and> (\<forall>x \<in> visited st. idx st x < index st)
      \<and> set (stack st) = onstack st
      \<and> onstack st \<subseteq> visited st
      \<and> sorted_wrt (\<lambda>a b. idx st b < idx st a) (stack st))"

definition wf_color :: "('v \<times> 'v list) list \<Rightarrow> 'v set \<Rightarrow> 'v tarjan \<Rightarrow> bool" where
  "wf_color g G st =
     (G \<subseteq> onstack st
      \<and> (\<forall>x \<in> finished st. \<forall>y. (x, y) \<in> edges g \<longrightarrow> y \<in> finished st)
      \<and> (\<forall>x \<in> onstack st - G. \<forall>y. (x, y) \<in> edges g \<longrightarrow> y \<in> visited st))"

definition wf_reach :: "('v \<times> 'v list) list \<Rightarrow> 'v set \<Rightarrow> 'v tarjan \<Rightarrow> bool" where
  "wf_reach g G st =
     ((\<forall>x \<in> onstack st. \<forall>y \<in> onstack st. idx st x \<le> idx st y \<longrightarrow> reaches g x y)
      \<and> (\<forall>z \<in> onstack st. \<exists>r \<in> G. idx st r \<le> idx st z \<and> reaches g z r))"

definition wf_low :: "('v \<times> 'v list) list \<Rightarrow> 'v tarjan \<Rightarrow> bool" where
  "wf_low g st =
     (\<forall>x \<in> onstack st. low st x \<le> idx st x
        \<and> (\<exists>y \<in> onstack st. idx st y = low st x \<and> reaches g x y))"

definition wf_sccs :: "('v \<times> 'v list) list \<Rightarrow> 'v tarjan \<Rightarrow> bool" where
  "wf_sccs g st =
     (distinct (concat (sccs st))
      \<and> set ` set (sccs st) = {S. is_scc g S \<and> S \<subseteq> finished st \<and> nontrivial S})"

definition wf_state :: "('v \<times> 'v list) list \<Rightarrow> 'v set \<Rightarrow> 'v tarjan \<Rightarrow> bool" where
  "wf_state g G st =
     (wf_stack st \<and> wf_color g G st \<and> wf_reach g G st \<and> wf_low g st \<and> wf_sccs g st)"

text \<open>
  What the loop of \<open>dfs\<close> over the successors of \<open>v\<close> keeps: the low link of \<open>v\<close>
  is at most the index of the target of every edge that leaves the part of the stack from
  \<open>v\<close> upwards and ends on the stack, the edges from \<open>v\<close> to its \<open>pending\<close>
  successors apart. \<open>ext\<close> says what a call leaves alone: the nodes that had an index
  keep it, new indices are not below the old counter, and the stack only grows.
\<close>

definition lowedge :: "('v \<times> 'v list) list \<Rightarrow> 'v \<Rightarrow> 'v set \<Rightarrow> 'v tarjan \<Rightarrow> bool" where
  "lowedge g v pending st =
     (\<forall>a b. (a, b) \<in> edges g \<and> a \<in> onstack st \<and> idx st v \<le> idx st a
            \<and> (a = v \<longrightarrow> b \<notin> pending) \<and> b \<in> onstack st
        \<longrightarrow> low st v \<le> idx st b)"

definition ext :: "'v tarjan \<Rightarrow> 'v tarjan \<Rightarrow> bool" where
  "ext st st' =
     (visited st \<subseteq> visited st'
      \<and> (\<forall>x \<in> visited st. indices st' x = indices st x)
      \<and> (\<forall>x \<in> visited st' - visited st. index st \<le> idx st' x)
      \<and> index st \<le> index st'
      \<and> (\<exists>new. stack st' = new @ stack st \<and> set new \<inter> visited st = {}))"

text \<open>
  The conditions on the state before and after a call of \<open>dfs\<close> on a new node and before
  and after its loop, and the two state changes that occur in them: lowering a low link
  and popping a component.
\<close>

definition pre_dfs :: "('v \<times> 'v list) list \<Rightarrow> 'v set \<Rightarrow> 'v \<Rightarrow> 'v tarjan \<Rightarrow> bool" where
  "pre_dfs g G v st =
     (wf_state g G st \<and> v \<notin> visited st \<and> (\<forall>x \<in> onstack st. reaches g x v))"

definition post_dfs :: "('v \<times> 'v list) list \<Rightarrow> 'v set \<Rightarrow> 'v \<Rightarrow> 'v tarjan \<Rightarrow> 'v tarjan \<Rightarrow> bool" where
  "post_dfs g G v st st' =
     (wf_state g G st' \<and> ext st st' \<and> v \<in> visited st'
      \<and> (\<forall>x \<in> visited st. lowlink st' x = lowlink st x)
      \<and> ((stack st' = stack st \<and> low st' v = idx st' v)
         \<or> ((\<exists>new. stack st' = new @ v # stack st) \<and> lowedge g v {} st')))"

definition pre_loop :: "('v \<times> 'v list) list \<Rightarrow> 'v set \<Rightarrow> 'v \<Rightarrow> 'v list \<Rightarrow> 'v tarjan \<Rightarrow> bool" where
  "pre_loop g G v ws st =
     (wf_state g G st \<and> v \<in> G \<and> (\<forall>x \<in> G. idx st x \<le> idx st v)
      \<and> set ws \<subseteq> set (successors g v)
      \<and> (\<forall>w \<in> set (successors g v) - set ws. w \<in> visited st)
      \<and> lowedge g v (set ws) st)"

definition post_loop :: "('v \<times> 'v list) list \<Rightarrow> 'v set \<Rightarrow> 'v \<Rightarrow> 'v tarjan \<Rightarrow> 'v tarjan \<Rightarrow> bool" where
  "post_loop g G v st st' =
     (wf_state g G st' \<and> ext st st'
      \<and> (\<forall>x \<in> visited st - {v}. lowlink st' x = lowlink st x)
      \<and> (\<forall>w \<in> set (successors g v). w \<in> visited st')
      \<and> lowedge g v {} st')"

definition relow :: "'v \<Rightarrow> nat \<Rightarrow> 'v tarjan \<Rightarrow> 'v tarjan" where
  "relow v m st = st\<lparr>lowlink := (lowlink st)(v \<mapsto> min (low st v) m)\<rparr>"

definition popped :: "'v tarjan \<Rightarrow> 'v list \<Rightarrow> 'v list \<Rightarrow> 'v tarjan" where
  "popped st component rest =
     st\<lparr>stack := rest, onstack := onstack st - set component,
        sccs := (if length component > 1 then sccs st @ [component] else sccs st)\<rparr>"

section \<open>Example inputs\<close>

text \<open>
  A scanner state before classification, with one module that imports \<open>os\<close> twice, a
  local module and a local package.
\<close>

definition example_scanner :: scanner where
  "example_scanner =
     \<lparr>project_root = Some [''proj''],
      module_info = [(''pkg.mod'',
         \<lparr>path = [''proj'', ''pkg'', ''mod.py''], imports = [''os'', ''pkg.util'', ''os'', ''pkg''],
          internal_imports = None, external_imports = None\<rparr>)],
      local_packages = {''pkg''},
      all_local_modules = {''pkg.mod'', ''pkg.util''}\<rparr>"

text \<open>
  A project with a top-level module and the package \<open>pkg\<close>, a scanner that has not scanned
  yet, the state after scanning the project, and the state after a further scan with the
  project root gone.
\<close>

definition example_tree :: dir where
  "example_tree =
     Dir [(''main.py'', Some (Node [Import [''os'', ''pkg.mod'']]))]
         [(''pkg'', Dir [(''__init__.py'', Some (Node [])),
                         (''mod.py'', Some (Node [ImportFrom 1 (Some ''util'')]))] [])]"

definition example_fs :: filesystem where
  "example_fs p = (if p = [''proj''] then Some example_tree else None)"

definition fresh_scanner :: scanner where
  "fresh_scanner =
     \<lparr>project_root = Some [''proj''], module_info = [], local_packages = {},
      all_local_modules = {}\<rparr>"

definition scanned_example :: scanner where
  "scanned_example =
     \<lparr>project_root = Some [''proj''],
      module_info =
        [(''main'', \<lparr>path = [''proj'', ''main.py''], imports = [''os'', ''pkg.mod''],
                     internal_imports = Some [''pkg.mod''], external_imports = Some [''os'']\<rparr>),
         (''pkg.__init__'', \<lparr>path = [''proj'', ''pkg'', ''__init__.py''], imports = [],
                     internal_imports = Some [], external_imports = Some []\<rparr>),
         (''pkg.mod'', \<lparr>path = [''proj'', ''pkg'', ''mod.py''], imports = [''pkg.util''],
                     internal_imports = Some [''pkg.util''], external_imports = Some []\<rparr>)],
      local_packages = {''pkg''},
      all_local_modules = {''main'', ''pkg.__init__'', ''pkg.mod''}\<rparr>"

definition rescanned_example :: scanner where
  "rescanned_example =
     \<lparr>project_root = Some [''proj''], module_info = [],
      local_packages = {''pkg''},
      all_local_modules = {''main'', ''pkg.__init__'', ''pkg.mod''}\<rparr>"

text \<open>
  The syntax tree of \<^verbatim>\<open>def f(): import a\<close> followed by \<^verbatim>\<open>import b\<close>, with the nodes that are
  not statements left out.
\<close>

definition nested_import_tree :: ast where
  "nested_import_tree = Node [Node [Import [''a'']], Import [''b'']]"

text \<open>
  A directory with a file that does not parse and a file that does, and the state after
  scanning it.
\<close>

definition two_file_tree :: dir where
  "two_file_tree =
     Dir [(''bad.py'', None),
          (''good.py'', Some (Node [Import [''os''], ImportFrom 0 (Some ''bad'')]))] []"

definition two_file_fs :: filesystem where
  "two_file_fs p = (if p = [''proj''] then Some two_file_tree else None)"

definition two_file_scanned :: scanner where
  "two_file_scanned =
     \<lparr>project_root = Some [''proj''],
      module_info =
        [(''bad'', \<lparr>path = [''proj'', ''bad.py''], imports = [],
                    internal_imports = Some [], external_imports = Some []\<rparr>),
         (''good'', \<lparr>path = [''proj'', ''good.py''], imports = [''os'', ''bad''],
                    internal_imports = Some [''bad''], external_imports = Some [''os'']\<rparr>)],
      local_packages = {},
      all_local_modules = {''bad'', ''good''}\<rparr>"

text \<open>
  A project whose only invalid file lies in a directory with a \<^verbatim>\<open>pyvenv.cfg\<close>, and a
  project in which the invalid file \<^verbatim>\<open>a.b.py\<close> and the valid file \<^verbatim>\<open>a/b.py\<close> have the same
  FQN, each with the state after scanning it.
\<close>

definition venv_bad_tree :: dir where
  "venv_bad_tree =
     Dir [(''good.py'', Some (Node [Import [''os'']]))]
         [(''env'', Dir [(''pyvenv.cfg'', None), (''bad.py'', None)] [])]"

definition venv_bad_fs :: filesystem where
  "venv_bad_fs p = (if p = [''proj''] then Some venv_bad_tree else None)"

definition venv_bad_scanned :: scanner where
  "venv_bad_scanned =
     \<lparr>project_root = Some [''proj''],
      module_info =
        [(''good'', \<lparr>path = [''proj'', ''good.py''], imports = [''os''],
                     internal_imports = Some [], external_imports = Some [''os'']\<rparr>)],
      local_packages = {},
      all_local_modules = {''env.bad'', ''good''}\<rparr>"

definition clash_tree :: dir where
  "clash_tree =
     Dir [(''a.b.py'', None)]
         [(''a'', Dir [(''b.py'', Some (Node [Import [''os'']]))] [])]"

definition clash_fs :: filesystem where
  "clash_fs p = (if p = [''proj''] then Some clash_tree else None)"

definition clash_scanned :: scanner where
  "clash_scanned =
     \<lparr>project_root = Some [''proj''],
      module_info =
        [(''a.b'', \<lparr>path = [''proj'', ''a'', ''b.py''], imports = [''os''],
                    internal_imports = Some [], external_imports = Some [''os'']\<rparr>)],
      local_packages = {},
      all_local_modules = {''a.b''}\<rparr>"

text \<open>
  A project whose directory \<open>env\<close> holds a \<^verbatim>\<open>pyvenv.cfg\<close> and a valid source file, and the
  state after scanning it.
\<close>

definition venv_dir :: dir where
  "venv_dir = Dir [(''pyvenv.cfg'', None), (''lib.py'', Some (Node [Import [''sys'']]))] []"

definition venv_tree :: dir where
  "venv_tree = Dir [(''main.py'', Some (Node [Import [''os'']]))] [(''env'', venv_dir)]"

definition venv_fs :: filesystem where
  "venv_fs p = (if p = [''proj''] then Some venv_tree else None)"

definition venv_scanned :: scanner where
  "venv_scanned =
     \<lparr>project_root = Some [''proj''],
      module_info =
        [(''main'', \<lparr>path = [''proj'', ''main.py''], imports = [''os''],
                     internal_imports = Some [], external_imports = Some [''os'']\<rparr>)],
      local_packages = {},
      all_local_modules = {''env.lib'', ''main''}\<rparr>"

text \<open>
  The graph \<open>{A:{B}, B:{C}, C:{A}, D:{}}\<close>, the same graph with its keys in the opposite
  order, a graph with two cycles, and a graph in which the successor \<open>x\<close> of \<open>a\<close> is not
  a key.
\<close>

definition abcd_graph :: "(string \<times> string list) list" where
  "abcd_graph = [(''A'', [''B'']), (''B'', [''C'']), (''C'', [''A'']), (''D'', [])]"

definition dcba_graph :: "(string \<times> string list) list" where
  "dcba_graph = [(''D'', []), (''C'', [''A'']), (''B'', [''C'']), (''A'', [''B''])]"

definition two_cycles_graph :: "(string \<times> string list) list" where
  "two_cycles_graph = [(''a'', [''b'']), (''b'', [''a'']), (''c'', [''d'']), (''d'', [''c''])]"

definition open_graph :: "(string \<times> string list) list" where
  "open_graph = [(''a'', [''b'', ''x'']), (''b'', [''a''])]"

text \<open>
  The definitions that evaluating a scan, or the cycle detector, on an example unfolds.
\<close>

lemmas scan_eval_defs =
  scan_def find_local_packages_and_modules_def survey_dir_def survey_file_def scan_dir_def
  scan_entry_def scan_file_def append_import_def to_fqn_def has_file_def endswith_def
  with_suffix_empty_def path_suffix_def new_record_def ast_walk_def categorize_imports_def
  categorize_data_def is_internal_def resolve_from_import_def slice_to_def build_graph_def

lemmas scc_eval_defs =
  strongly_connected_components_def visit_key_def init_state_def visit_def successors_def
  lower_def close_component_def dfs.simps

section \<open>Facts about the Python list operations\<close>

lemma split_dots_nonempty: "split_dots s \<noteq> []"
  by (induction s) (auto split: list.splits)

lemma slice_to_minus_one: "slice_to xs (- 1) = butlast xs"
proof -
  have "nat (max 0 (int (length xs) + - 1)) = length xs - 1"
    by linarith
  then show ?thesis
    by (simp add: slice_to_def butlast_conv_take Let_def)
qed

lemma drop_trailing_take: "drop_trailing n xs = take (length xs - n) xs"
  by (simp add: drop_trailing_def rev_drop)

lemma slice_to_negative:
  assumes "1 < level"
  shows "slice_to xs (- level + 1) = drop_trailing (nat (level - 1)) xs"
proof -
  have neg: "- level + 1 < 0"
    using assms by simp
  have "nat (max 0 (int (length xs) + (- level + 1))) = length xs - nat (level - 1)"
    using assms by linarith
  with neg show ?thesis
    by (simp only: slice_to_def drop_trailing_take Let_def if_True)
qed

section \<open>Facts about the classifier\<close>

lemma hd_split_dots: "hd (split_dots t) = first_segment t"
  by (induction t) (auto simp: first_segment_def split_dots_nonempty split: list.splits)

lemma categorize_loop_filter:
  "categorize_loop s xs acc =
     (fst acc @ filter (is_internal s) xs, snd acc @ filter (\<lambda>n. \<not> is_internal s n) xs)"
  by (induction xs arbitrary: acc) simp_all

lemma categorize_data_eq:
  "categorize_data s data =
     data\<lparr>internal_imports := Some (filter (is_internal s) (imports data)),
          external_imports := Some (filter (\<lambda>n. \<not> is_internal s n) (imports data))\<rparr>"
  by (simp add: categorize_data_def categorize_loop_filter Let_def)

lemma module_info_categorize:
  "(fqn, data) \<in> set (module_info (categorize_imports s)) \<Longrightarrow>
   \<exists>data0. (fqn, data0) \<in> set (module_info s) \<and> data = categorize_data s data0"
  by (auto simp: categorize_imports_def)

lemma mset_filter_partition: "mset (filter P xs) + mset (filter (\<lambda>x. \<not> P x) xs) = mset xs"
  by (induction xs) simp_all

lemma categorize_data_catalog:
  "all_local_modules s = all_local_modules t \<Longrightarrow> local_packages s = local_packages t \<Longrightarrow>
   categorize_data s = categorize_data t"
  by (rule ext) (simp add: categorize_data_eq is_internal_def [abs_def])

lemma example_categorized:
  "module_info (categorize_imports example_scanner) =
     [(''pkg.mod'',
       \<lparr>path = [''proj'', ''pkg'', ''mod.py''], imports = [''os'', ''pkg.util'', ''os'', ''pkg''],
        internal_imports = Some [''pkg.util'', ''pkg''], external_imports = Some [''os'', ''os'']\<rparr>)]"
  by (simp add: categorize_imports_def categorize_data_def example_scanner_def is_internal_def)

section \<open>Facts about the traversal of a syntax tree\<close>

lemma map_of_update_same: "map_of (AList.update k v al) k = Some v"
  by (simp add: update_conv')

lemma fold_append_import:
  "map_of mi fqn = Some data \<Longrightarrow>
   fold_err (append_import fqn) names mi =
     Inr (AList.update fqn (data\<lparr>imports := imports data @ names\<rparr>) mi)"
proof (induction names arbitrary: mi data)
  case Nil
  then show ?case by (simp add: update_triv)
next
  case (Cons n names)
  let ?d = "data\<lparr>imports := imports data @ [n]\<rparr>"
  have "map_of (AList.update fqn ?d mi) fqn = Some ?d" by (rule map_of_update_same)
  from Cons.IH [OF this] Cons.prems show ?case
    by (simp add: append_import_def)
qed

lemma scan_node_entries:
  "map_of mi fqn = Some data \<Longrightarrow>
   scan_node fqn node mi =
     Inr (AList.update fqn (data\<lparr>imports := imports data @ node_entries fqn node\<rparr>) mi)"
  by (cases node) (simp_all add: fold_append_import append_import_def update_triv)

lemma fold_scan_node:
  "map_of mi fqn = Some data \<Longrightarrow>
   fold_err (scan_node fqn) nodes mi =
     Inr (AList.update fqn
            (data\<lparr>imports := imports data @ concat (map (node_entries fqn) nodes)\<rparr>) mi)"
proof (induction nodes arbitrary: mi data)
  case Nil
  then show ?case by (simp add: update_triv)
next
  case (Cons n nodes)
  let ?d = "data\<lparr>imports := imports data @ node_entries fqn n\<rparr>"
  have "map_of (AList.update fqn ?d mi) fqn = Some ?d" by (rule map_of_update_same)
  from Cons.IH [OF this] show ?case
    by (simp add: scan_node_entries [OF Cons.prems])
qed

lemma walk_queue_append:
  "walk_queue (q @ r) = q @ walk_queue (r @ concat (map children q))"
  by (induction q arbitrary: r) simp_all

lemma walk_queue_children: "walk_queue q = q @ walk_queue (concat (map children q))"
  using walk_queue_append [of q "[]"] by simp

lemma at_depth_Suc_queue:
  "concat (map (at_depth (Suc k)) q) = concat (map (at_depth k) (concat (map children q)))"
  by (induction q) simp_all

lemma at_depth_0_queue: "concat (map (at_depth 0) q) = q"
  by (induction q) simp_all

lemma node_count_children: "sum_list (map node_count (children t)) < node_count t"
  by (cases t) simp_all

lemma node_count_queue_children:
  "q \<noteq> [] \<Longrightarrow>
   sum_list (map node_count (concat (map children q))) < sum_list (map node_count q)"
proof (induction q)
  case Nil
  then show ?case by simp
next
  case (Cons t q)
  show ?case
  proof (cases "q = []")
    case True
    then show ?thesis using node_count_children [of t] by simp
  next
    case False
    with Cons.IH node_count_children [of t] show ?thesis by simp
  qed
qed

lemma concat_upt_Suc:
  "concat (map f [0..<Suc n]) = f 0 @ concat (map (\<lambda>k. f (Suc k)) [0..<n])"
proof -
  have "[0..<Suc n] = 0 # map Suc [0..<n]"
    by (simp add: upt_conv_Cons map_Suc_upt del: upt_Suc)
  then show ?thesis by (simp add: comp_def del: upt_Suc)
qed

lemma walk_queue_levels:
  "sum_list (map node_count q) \<le> n \<Longrightarrow>
   walk_queue q = concat (map (\<lambda>k. concat (map (at_depth k) q)) [0..<n])"
proof (induction n arbitrary: q)
  case 0
  have "q = []"
  proof (cases q)
    case (Cons t q')
    with 0 show ?thesis by (cases t) simp_all
  qed simp
  then show ?case by simp
next
  case (Suc n)
  show ?case
  proof (cases "q = []")
    case True
    then show ?thesis by simp
  next
    case False
    let ?q' = "concat (map children q)"
    from node_count_queue_children [OF False] Suc.prems
    have "sum_list (map node_count ?q') \<le> n" by simp
    from Suc.IH [OF this]
    have "walk_queue ?q' = concat (map (\<lambda>k. concat (map (at_depth (Suc k)) q)) [0..<n])"
      by (simp only: at_depth_Suc_queue)
    then have "q @ walk_queue ?q' =
        concat (map (\<lambda>k. concat (map (at_depth k) q)) [0..<Suc n])"
      by (simp only: concat_upt_Suc [of "\<lambda>k. concat (map (at_depth k) q)"] at_depth_0_queue)
    with walk_queue_children [of q] show ?thesis by simp
  qed
qed

lemma ast_walk_levels:
  "ast_walk tree = concat (map (\<lambda>k. at_depth k tree) [0..<node_count tree])"
  using walk_queue_levels [of "[tree]" "node_count tree"]
  by (simp add: ast_walk_def)

lemma mset_source_order:
  "mset (source_order n) = {#n#} + (\<Sum>t\<leftarrow>children n. mset (source_order t))"
  by (cases n) (simp_all add: mset_concat comp_def)

lemma mset_walk_queue:
  "mset (walk_queue q) = (\<Sum>t\<leftarrow>q. mset (source_order t))"
proof (induction q rule: walk_queue.induct)
  case 1
  then show ?case by simp
next
  case (2 n todo)
  with mset_source_order [of n] show ?case by (simp add: ac_simps)
qed

lemma mset_ast_walk: "mset (ast_walk tree) = mset (source_order tree)"
  unfolding ast_walk_def mset_walk_queue by simp

lemma mset_concat_map_cong:
  "mset xs = mset ys \<Longrightarrow> mset (concat (map f xs)) = mset (concat (map f ys))"
proof -
  assume "mset xs = mset ys"
  then have "image_mset (\<lambda>x. mset (f x)) (mset xs) = image_mset (\<lambda>x. mset (f x)) (mset ys)"
    by simp
  then have "\<Sum>\<^sub># (image_mset (\<lambda>x. mset (f x)) (mset xs)) = \<Sum>\<^sub># (image_mset (\<lambda>x. mset (f x)) (mset ys))"
    by simp
  then show ?thesis
    by (simp add: mset_concat comp_def flip: sum_mset_sum_list)
qed

section \<open>Facts about the two walks of a scan\<close>

lemma fold_err_Inr:
  "(\<And>x s. x \<in> set xs \<Longrightarrow> f x s = Inr (g x s)) \<Longrightarrow> fold_err f xs s = Inr (fold g xs s)"
  by (induction xs arbitrary: s) simp_all

lemma fold_err_invariant:
  "(\<And>x s. x \<in> set xs \<Longrightarrow> P s \<Longrightarrow> \<exists>s'. f x s = Inr s' \<and> P s') \<Longrightarrow> P s \<Longrightarrow>
   \<exists>s'. fold_err f xs s = Inr s' \<and> P s'"
proof (induction xs arbitrary: s)
  case Nil
  then show ?case by simp
next
  case (Cons x xs)
  from Cons.prems(1) [of x s] Cons.prems(2) obtain s1 where s1: "f x s = Inr s1" "P s1"
    by auto
  from Cons.IH [of s1] Cons.prems(1) s1(2) obtain s' where "fold_err f xs s1 = Inr s'" "P s'"
    by auto
  with s1 show ?case by simp
qed

lemma os_walk_prefix:
  "(p, sub) \<in> set (os_walk prune dirpath d) \<Longrightarrow> prefix dirpath p"
proof (induction prune dirpath d arbitrary: p sub rule: os_walk.induct)
  case (1 prune dirpath fs ds)
  show ?case
  proof (cases "(p, sub) = (dirpath, Dir fs ds)")
    case True
    then show ?thesis by simp
  next
    case False
    with 1(2) obtain name c where np: "\<not> prune (Dir fs ds)" and c: "(name, c) \<in> set ds"
      and m: "(p, sub) \<in> set (os_walk prune (dirpath @ [name]) c)"
      by (auto split: if_splits)
    from 1(1) [OF np c refl m] have "prefix (dirpath @ [name]) p" .
    then show ?thesis by (rule append_prefixD)
  qed
qed

lemma to_fqn_under_root:
  "prefix root dirpath \<Longrightarrow> \<exists>fqn. to_fqn root (dirpath @ [name]) = Inr fqn"
  by (auto simp: to_fqn_def Let_def prefix_def)

lemma the_fqn_under_root:
  "prefix root dirpath \<Longrightarrow> to_fqn root (dirpath @ [name]) = Inr (the_fqn root (dirpath @ [name]))"
  using to_fqn_under_root [of root dirpath name] by (auto simp: the_fqn_def)

lemma scan_file_fresh:
  "scan_file parsed fqn (AList.update fqn (new_record p) mi) =
     Inr (AList.update fqn
            \<lparr>path = p, imports = file_imports fqn parsed,
             internal_imports = None, external_imports = None\<rparr> mi)"
proof (cases parsed)
  case None
  then show ?thesis by (simp add: scan_file_def new_record_def)
next
  case (Some tree)
  have "map_of (AList.update fqn (new_record p) mi) fqn = Some (new_record p)"
    by (rule map_of_update_same)
  from fold_scan_node [OF this, of "ast_walk tree"] Some show ?thesis
    by (simp add: scan_file_def new_record_def)
qed

lemma scan_entry_under_root:
  assumes "prefix root dirpath"
  shows "scan_entry root dirpath entry mi =
     Inr (if endswith (fst entry) ''.py''
          then add_record root (dirpath @ [fst entry], snd entry) mi else mi)"
  using the_fqn_under_root [OF assms, of "fst entry"]
  by (simp add: scan_entry_def Let_def scan_file_fresh add_record_def file_record_def)

lemma fold_scan_entry:
  assumes "prefix root dirpath"
  shows "fold_err (scan_entry root dirpath) entries mi =
     Inr (fold (add_record root)
            (map (\<lambda>entry. (dirpath @ [fst entry], snd entry))
               (filter (\<lambda>entry. endswith (fst entry) ''.py'') entries)) mi)"
  by (induction entries arbitrary: mi) (simp_all add: scan_entry_under_root [OF assms])

lemma scan_dir_under_root:
  assumes "prefix root (fst walked)"
  shows "scan_dir root walked mi =
     Inr (fold (add_record root)
            (if has_file ''pyvenv.cfg'' (snd walked) then []
             else py_files (fst walked) (snd walked)) mi)"
  by (simp add: scan_dir_def fold_scan_entry [OF assms] py_files_def)

lemma fold_scan_dir:
  assumes "\<And>walked. walked \<in> set ws \<Longrightarrow> prefix root (fst walked)"
  shows "fold_err (scan_dir root) ws mi =
     Inr (fold (add_record root)
            (concat (map (\<lambda>walked. if has_file ''pyvenv.cfg'' (snd walked) then []
                                   else py_files (fst walked) (snd walked)) ws)) mi)"
  using assms
proof (induction ws arbitrary: mi)
  case Nil
  then show ?case by simp
next
  case (Cons w ws)
  from Cons.prems have "prefix root (fst w)" by simp
  from scan_dir_under_root [OF this] Cons.IH Cons.prems show ?case by simp
qed

lemma scan_walk:
  "fold_err (scan_dir root) (os_walk (has_file ''pyvenv.cfg'') root d) mi =
     Inr (fold (add_record root) (walked_files root d) mi)"
  unfolding walked_files_def
proof (rule fold_scan_dir)
  fix walked
  assume "walked \<in> set (os_walk (has_file ''pyvenv.cfg'') root d)"
  then show "prefix root (fst walked)"
    using os_walk_prefix [of "fst walked" "snd walked"] by simp
qed

lemma survey_file_under_root:
  assumes "prefix root dirpath"
  shows "\<exists>s'. survey_file root dirpath entry s = Inr s'
      \<and> module_info s' = module_info s \<and> project_root s' = project_root s"
  using to_fqn_under_root [OF assms, of "fst entry"]
  by (auto simp: survey_file_def)

lemma survey_dir_under_root:
  assumes "prefix root (fst walked)"
  shows "\<exists>s'. survey_dir root walked s = Inr s'
      \<and> module_info s' = module_info s \<and> project_root s' = project_root s"
proof -
  let ?s1 = "if has_file ''__init__.py'' (snd walked)
             then s\<lparr>local_packages := insert (join_dots (drop (length root) (fst walked)))
                                        (local_packages s)\<rparr>
             else s"
  have "\<exists>s'. fold_err (survey_file root (fst walked)) (files (snd walked)) ?s1 = Inr s'
      \<and> (module_info s' = module_info s \<and> project_root s' = project_root s)"
  proof (rule fold_err_invariant)
    fix x and t :: scanner
    assume "module_info t = module_info s \<and> project_root t = project_root s"
    with survey_file_under_root [OF assms, of x t]
    show "\<exists>s'. survey_file root (fst walked) x t = Inr s'
        \<and> (module_info s' = module_info s \<and> project_root s' = project_root s)"
      by auto
  qed simp
  with assms show ?thesis by (simp add: survey_dir_def Let_def)
qed

lemma survey_total:
  "\<exists>s'. find_local_packages_and_modules root d s = Inr s'
      \<and> module_info s' = module_info s \<and> project_root s' = project_root s"
proof -
  let ?s0 = "s\<lparr>local_packages := {}, all_local_modules := {}\<rparr>"
  have "\<exists>s'. fold_err (survey_dir root) (os_walk (\<lambda>_. False) root d) ?s0 = Inr s'
      \<and> (module_info s' = module_info s \<and> project_root s' = project_root s)"
  proof (rule fold_err_invariant)
    fix x and t :: scanner
    assume x: "x \<in> set (os_walk (\<lambda>_. False) root d)"
      and t: "module_info t = module_info s \<and> project_root t = project_root s"
    from x have "prefix root (fst x)"
      using os_walk_prefix [of "fst x" "snd x"] by simp
    from survey_dir_under_root [OF this, of t] t
    show "\<exists>s'. survey_dir root x t = Inr s'
        \<and> (module_info s' = module_info s \<and> project_root s' = project_root s)"
      by auto
  qed simp
  then show ?thesis by (simp add: find_local_packages_and_modules_def)
qed

lemma scan_result:
  assumes "project_root s = Some root" and "fs root = Some d"
  shows "\<exists>s'. scan fs s = Inr s'
     \<and> module_info s' =
         map (\<lambda>(fqn, data). (fqn, categorize_data s' data))
           (fold (add_record root) (walked_files root d) [])"
proof -
  let ?s0 = "s\<lparr>module_info := []\<rparr>"
  from survey_total [of root d ?s0] obtain s1
    where s1: "find_local_packages_and_modules root d ?s0 = Inr s1" "module_info s1 = []"
    by auto
  let ?mi = "fold (add_record root) (walked_files root d) []"
  let ?s' = "categorize_imports (s1\<lparr>module_info := ?mi\<rparr>)"
  have scan: "scan fs s = Inr ?s'"
    using assms s1 by (simp add: scan_def scan_walk)
  have "categorize_data (s1\<lparr>module_info := ?mi\<rparr>) = categorize_data ?s'"
    by (rule categorize_data_catalog) (simp_all add: categorize_imports_def)
  then have "module_info ?s' = map (\<lambda>(fqn, data). (fqn, categorize_data ?s' data)) ?mi"
    by (simp add: categorize_imports_def)
  with scan show ?thesis by blast
qed

lemma update_fresh_key: "k \<notin> fst ` set al \<Longrightarrow> AList.update k v al = al @ [(k, v)]"
  by (induction al) auto

lemma set_update_subset: "set (AList.update k v al) \<subseteq> insert (k, v) (set al)"
  by (induction al) auto

lemma keys_add_record:
  "fst ` set (fold (add_record root) fs mi) = fst ` set mi \<union> (\<lambda>file. the_fqn root (fst file)) ` set fs"
  by (induction fs arbitrary: mi) (auto simp: add_record_def file_record_def dom_update)

lemma fold_add_record_distinct:
  "distinct (map (\<lambda>file. the_fqn root (fst file)) fs) \<Longrightarrow>
   fst ` set mi \<inter> (\<lambda>file. the_fqn root (fst file)) ` set fs = {} \<Longrightarrow>
   fold (add_record root) fs mi = mi @ map (file_record root) fs"
proof (induction fs arbitrary: mi)
  case Nil
  then show ?case by simp
next
  case (Cons f fs)
  from Cons.prems(2) have fresh: "the_fqn root (fst f) \<notin> fst ` set mi" by auto
  then have step: "add_record root f mi = mi @ [file_record root f]"
    by (simp add: add_record_def update_fresh_key file_record_def)
  have "fst ` set (mi @ [file_record root f]) \<inter> (\<lambda>file. the_fqn root (fst file)) ` set fs = {}"
    using Cons.prems by (auto simp: file_record_def)
  with Cons.IH [of "mi @ [file_record root f]"] Cons.prems(1) step show ?case by simp
qed

lemma paths_add_record:
  "(fqn, data) \<in> set (fold (add_record root) fs mi) \<Longrightarrow>
   (fqn, data) \<in> set mi \<or> (\<exists>file \<in> set fs. path data = fst file)"
proof (induction fs arbitrary: mi)
  case Nil
  then show ?case by simp
next
  case (Cons f fs)
  from Cons.IH [OF Cons.prems [simplified]]
  show ?case
  proof
    assume "(fqn, data) \<in> set (add_record root f mi)"
    then have "(fqn, data) \<in> insert (file_record root f) (set mi)"
      using set_update_subset [of "fst (file_record root f)" "snd (file_record root f)" mi]
      by (auto simp: add_record_def)
    then show ?thesis by (auto simp: file_record_def)
  qed auto
qed

lemma walked_files_paths:
  "file \<in> set (walked_files root d) \<Longrightarrow>
   \<exists>dirpath sub name. (dirpath, sub) \<in> set (os_walk (has_file ''pyvenv.cfg'') root d)
      \<and> \<not> has_file ''pyvenv.cfg'' sub \<and> fst file = dirpath @ [name]"
  by (auto simp: walked_files_def py_files_def split: if_splits)

lemma same_length_prefixes:
  "prefix (xs @ [a]) zs \<Longrightarrow> prefix (xs @ [b]) zs \<Longrightarrow> a = b"
  by (auto simp: prefix_def append_eq_append_conv2 Cons_eq_append_conv)

lemma walk_avoids_pruned:
  "distinct_names d \<Longrightarrow> (dp, sub) \<in> set (os_walk prune dirpath d) \<Longrightarrow> \<not> prune sub \<Longrightarrow>
   (v, vd) \<in> set (os_walk (\<lambda>_. False) dirpath d) \<Longrightarrow> prune vd \<Longrightarrow> \<not> prefix v dp"
proof (induction "\<lambda>_::dir. False" dirpath d arbitrary: dp sub v vd rule: os_walk.induct)
  case (1 dirpath fs ds)
  let ?d = "Dir fs ds"
  show ?case
  proof (cases "prune ?d")
    case True
    with 1(3,4) show ?thesis by simp
  next
    case False
    from 1(5,6) False obtain n c where c: "(n, c) \<in> set ds"
      and v: "(v, vd) \<in> set (os_walk (\<lambda>_. False) (dirpath @ [n]) c)"
      by auto
    from os_walk_prefix [OF v] have pv: "prefix (dirpath @ [n]) v" .
    show ?thesis
    proof (cases "(dp, sub) = (dirpath, ?d)")
      case True
      show ?thesis
      proof
        assume "prefix v dp"
        with pv True have "prefix (dirpath @ [n]) v" "prefix v dirpath" by auto
        from prefix_length_le [OF this(1)] prefix_length_le [OF this(2)]
        show False by simp
      qed
    next
      case nd: False
      with 1(3) False obtain n' c' where c': "(n', c') \<in> set ds"
        and dp: "(dp, sub) \<in> set (os_walk prune (dirpath @ [n']) c')"
        by auto
      from os_walk_prefix [OF dp] have pd: "prefix (dirpath @ [n']) dp" .
      show ?thesis
      proof
        assume a: "prefix v dp"
        with pv have "prefix (dirpath @ [n]) dp" by auto
        from same_length_prefixes [OF this pd] have "n = n'" .
        moreover from 1(2) have "distinct (map fst ds)" by simp
        ultimately have "c = c'" using c c' by (metis eq_key_imp_eq_value)
        from 1(2) c have dn: "distinct_names c" by auto
        from 1(1) [OF _ c refl dn] dp \<open>c = c'\<close> \<open>n = n'\<close> 1(4) v 1(6) a
        show False by auto
      qed
    qed
  qed
qed

lemma scan_missing_root:
  "project_root s = None \<or> (\<exists>root. project_root s = Some root \<and> fs root = None) \<Longrightarrow>
   scan fs s = Inr (s\<lparr>module_info := []\<rparr>)"
  by (auto simp: scan_def)

lemma scan_example: "scan example_fs fresh_scanner = Inr scanned_example"
  by (simp add: scan_eval_defs example_fs_def example_tree_def fresh_scanner_def
        scanned_example_def Let_def insert_commute)

lemma scan_two_files: "scan two_file_fs fresh_scanner = Inr two_file_scanned"
  by (simp add: scan_eval_defs two_file_fs_def two_file_tree_def fresh_scanner_def
        two_file_scanned_def Let_def insert_commute)

lemma walked_two_files:
  "map (\<lambda>file. the_fqn [''proj''] (fst file)) (walked_files [''proj''] two_file_tree) =
     [''bad'', ''good'']"
  by (simp add: walked_files_def py_files_def two_file_tree_def has_file_def endswith_def
        the_fqn_def to_fqn_def with_suffix_empty_def path_suffix_def Let_def)

lemma scan_venv: "scan venv_fs fresh_scanner = Inr venv_scanned"
  by (simp add: scan_eval_defs venv_fs_def venv_tree_def venv_dir_def fresh_scanner_def
        venv_scanned_def Let_def)

section \<open>Facts about graphs and components\<close>

lemma reaches_refl [simp]: "reaches g x x"
  by (simp add: reaches_def)

lemma reaches_trans: "reaches g x y \<Longrightarrow> reaches g y z \<Longrightarrow> reaches g x z"
  by (auto simp: reaches_def)

lemma reaches_edge: "(x, y) \<in> edges g \<Longrightarrow> reaches g x y"
  by (auto simp: reaches_def)

lemma reaches_step: "reaches g x y \<Longrightarrow> (y, z) \<in> edges g \<Longrightarrow> reaches g x z"
  by (auto simp: reaches_def)

lemma closed_reaches:
  assumes "reaches g x y" and "x \<in> A" and "\<And>a b. a \<in> A \<Longrightarrow> (a, b) \<in> edges g \<Longrightarrow> b \<in> A"
  shows "y \<in> A"
  using assms(1) unfolding reaches_def
  by (induction rule: rtrancl_induct) (auto intro: assms(2,3))

lemma scc_of_self: "x \<in> scc_of g x"
  by (simp add: scc_of_def)

lemma scc_of_mutual: "a \<in> scc_of g x \<Longrightarrow> b \<in> scc_of g x \<Longrightarrow> reaches g a b"
  by (auto simp: scc_of_def intro: reaches_trans)

lemma is_scc_scc_of: "is_scc g (scc_of g x)"
  unfolding is_scc_def
proof (intro conjI allI impI ballI)
  show "scc_of g x \<noteq> {}" using scc_of_self [of x g] by auto
next
  fix a b assume "a \<in> scc_of g x" "b \<in> scc_of g x"
  then show "reaches g a b" by (rule scc_of_mutual)
next
  fix T assume T: "scc_of g x \<subseteq> T \<and> (\<forall>x\<in>T. \<forall>y\<in>T. reaches g x y)"
  then have "x \<in> T" using scc_of_self [of x g] by auto
  with T have "T \<subseteq> scc_of g x" by (auto simp: scc_of_def)
  with T show "T = scc_of g x" by auto
qed

lemma is_scc_eq_scc_of:
  assumes "is_scc g S" and "x \<in> S"
  shows "S = scc_of g x"
proof -
  from assms have mutual: "\<forall>a \<in> S. \<forall>b \<in> S. reaches g a b" by (simp add: is_scc_def)
  with assms(2) have sub: "S \<subseteq> scc_of g x" by (auto simp: scc_of_def)
  have "\<forall>a \<in> scc_of g x. \<forall>b \<in> scc_of g x. reaches g a b"
    by (auto intro: scc_of_mutual)
  with assms(1) sub show ?thesis unfolding is_scc_def by blast
qed

lemma is_scc_iff: "is_scc g S \<longleftrightarrow> (\<exists>x. S = scc_of g x)"
proof
  assume s: "is_scc g S"
  then obtain x where "x \<in> S" by (auto simp: is_scc_def)
  with s show "\<exists>x. S = scc_of g x" by (auto dest: is_scc_eq_scc_of)
qed (auto simp: is_scc_scc_of)

lemma scc_disjoint_or_equal:
  assumes "is_scc g S" and "is_scc g T" and "x \<in> S" and "x \<in> T"
  shows "S = T"
  using is_scc_eq_scc_of [OF assms(1,3)] is_scc_eq_scc_of [OF assms(2,4)] by simp

lemma edge_source_is_key: "(x, y) \<in> edges g \<Longrightarrow> x \<in> set (map fst g)"
proof -
  assume "(x, y) \<in> edges g"
  then have "successors g x \<noteq> []" by (auto simp: edges_def)
  then obtain ws where "map_of g x = Some ws"
    by (auto simp: successors_def split: option.splits)
  then have "(x, ws) \<in> set g" by (rule map_of_SomeD)
  then show ?thesis by force
qed

lemma reaches_other_has_edge:
  assumes "reaches g x y" and "x \<noteq> y"
  shows "\<exists>z. (x, z) \<in> edges g"
  using assms unfolding reaches_def by (auto elim: converse_rtranclE)

lemma reaches_in_nodes:
  assumes "reaches g x y"
  shows "y = x \<or> y \<in> graph_nodes g"
  using assms unfolding reaches_def
proof (cases rule: rtranclE)
  case base
  then show ?thesis by simp
next
  case (step z)
  then have "y \<in> set (successors g z)" by (simp add: edges_def)
  with successors_nodes [of g z] show ?thesis by blast
qed

lemma finite_scc: "is_scc g S \<Longrightarrow> finite S"
proof -
  assume "is_scc g S"
  then obtain x where "S = scc_of g x" by (auto simp: is_scc_iff)
  then have "S \<subseteq> insert x (graph_nodes g)"
    using reaches_in_nodes [of g x] by (auto simp: scc_of_def)
  then show ?thesis by (rule finite_subset) (simp add: finite_graph_nodes)
qed

lemma nontrivial_card: "finite S \<Longrightarrow> nontrivial S \<longleftrightarrow> 2 \<le> card S"
proof
  assume f: "finite S" and "nontrivial S"
  then obtain x y where xy: "x \<in> S" "y \<in> S" "x \<noteq> y" by (auto simp: nontrivial_def)
  then have "card {x, y} \<le> card S" using f by (intro card_mono) auto
  with xy(3) show "2 \<le> card S" by simp
next
  assume f: "finite S" and c: "2 \<le> card S"
  then obtain x where x: "x \<in> S" by (cases "S = {}") auto
  from c f have "card (S - {x}) \<noteq> 0" using x by simp
  then obtain y where "y \<in> S - {x}" by (cases "S - {x} = {}") auto
  with x show "nontrivial S" unfolding nontrivial_def by blast
qed

lemma nontrivial_scc_visited:
  assumes "is_scc g S" and "nontrivial S" and "set (map fst g) \<subseteq> V"
  shows "S \<subseteq> V"
proof
  fix x assume x: "x \<in> S"
  from assms(2) obtain y where y: "y \<in> S" "y \<noteq> x"
    unfolding nontrivial_def by (metis x)
  from assms(1) x y(1) have "reaches g x y" by (simp add: is_scc_def)
  from reaches_other_has_edge [OF this] y(2) obtain z where "(x, z) \<in> edges g" by auto
  from edge_source_is_key [OF this] assms(3) show "x \<in> V" by blast
qed

lemma distinct_concat_disjoint:
  assumes "distinct (concat xss)" and "i < j" and "j < length xss"
  shows "set (xss ! i) \<inter> set (xss ! j) = {}"
  using assms
proof (induction xss arbitrary: i j)
  case Nil
  then show ?case by simp
next
  case (Cons xs xss)
  show ?case
  proof (cases i)
    case 0
    with Cons.prems obtain j' where j: "j = Suc j'" "j' < length xss" by (cases j) auto
    then have "xss ! j' \<in> set xss" by simp
    with Cons.prems(1) have "set xs \<inter> set (xss ! j') = {}" by auto
    with 0 j show ?thesis by simp
  next
    case (Suc i')
    with Cons.prems obtain j' where j: "j = Suc j'" "i' < j'" "j' < length xss"
      by (cases j) auto
    from Cons.prems(1) have "distinct (concat xss)" by simp
    from Cons.IH [OF this j(2,3)] Suc j show ?thesis by simp
  qed
qed

section \<open>The steps of the traversal keep the invariant\<close>

lemma pop_component_segment:
  "distinct (pre @ [v]) \<Longrightarrow> set (pre @ [v]) \<subseteq> ons \<Longrightarrow>
   pop_component v (pre @ v # rest) ons acc = Inr (rest, ons - set (pre @ [v]), acc @ pre @ [v])"
proof (induction pre arbitrary: ons acc)
  case Nil
  then show ?case by simp
next
  case (Cons w pre)
  from Cons.prems have w: "w \<noteq> v" "w \<in> ons" by auto
  from Cons.prems have "distinct (pre @ [v])" "set (pre @ [v]) \<subseteq> ons - {w}" by auto
  from Cons.IH [OF this, of "acc @ [w]"]
  have "pop_component v (pre @ v # rest) (ons - {w}) (acc @ [w]) =
      Inr (rest, (ons - {w}) - set (pre @ [v]), (acc @ [w]) @ pre @ [v])" .
  moreover have "(ons - {w}) - set (pre @ [v]) = ons - set ((w # pre) @ [v])" by auto
  ultimately show ?case using w by simp
qed

lemma ext_refl: "ext st st"
  by (simp add: ext_def)

lemma ext_idx: "ext st st' \<Longrightarrow> x \<in> visited st \<Longrightarrow> idx st' x = idx st x"
  by (simp add: ext_def idx_def)

lemma ext_trans:
  assumes "ext st st'" and "ext st' st''"
  shows "ext st st''"
proof -
  from assms obtain n1 n2 where n1: "stack st' = n1 @ stack st" "set n1 \<inter> visited st = {}"
    and n2: "stack st'' = n2 @ stack st'" "set n2 \<inter> visited st' = {}"
    by (auto simp: ext_def)
  from assms have sub: "visited st \<subseteq> visited st'" "visited st' \<subseteq> visited st''"
    by (auto simp: ext_def)
  have new: "stack st'' = (n2 @ n1) @ stack st \<and> set (n2 @ n1) \<inter> visited st = {}"
    using n1 n2 sub by auto
  have "\<forall>x \<in> visited st'' - visited st. index st \<le> idx st'' x"
  proof
    fix x assume x: "x \<in> visited st'' - visited st"
    show "index st \<le> idx st'' x"
    proof (cases "x \<in> visited st'")
      case True
      with x assms(1) have "index st \<le> idx st' x" by (auto simp: ext_def)
      with ext_idx [OF assms(2) True] show ?thesis by simp
    next
      case False
      with x assms(2) have "index st' \<le> idx st'' x" by (auto simp: ext_def)
      with assms(1) show ?thesis by (auto simp: ext_def)
    qed
  qed
  moreover have "\<forall>x \<in> visited st. indices st'' x = indices st x"
    using assms sub by (auto simp: ext_def)
  moreover have "index st \<le> index st''" using assms by (auto simp: ext_def)
  ultimately show ?thesis using sub new unfolding ext_def by blast
qed

lemma visit_fields:
  "indices (visit v st) = (indices st)(v \<mapsto> index st)"
  "lowlink (visit v st) = (lowlink st)(v \<mapsto> index st)"
  "index (visit v st) = Suc (index st)"
  "stack (visit v st) = v # stack st"
  "onstack (visit v st) = insert v (onstack st)"
  "sccs (visit v st) = sccs st"
  by (simp_all add: visit_def)

lemma visited_visit: "visited (visit v st) = insert v (visited st)"
  by (simp add: visited_def visit_fields)

lemma idx_visit: "idx (visit v st) x = (if x = v then index st else idx st x)"
  by (simp add: idx_def visit_fields)

lemma low_visit: "low (visit v st) x = (if x = v then index st else low st x)"
  by (simp add: low_def visit_fields)

lemma finished_visit: "v \<notin> visited st \<Longrightarrow> finished (visit v st) = finished st"
  by (auto simp: finished_def visited_visit visit_fields)

lemma ext_visit:
  assumes "v \<notin> visited st"
  shows "ext st (visit v st)"
proof -
  have "stack (visit v st) = [v] @ stack st \<and> set [v] \<inter> visited st = {}"
    using assms by (simp add: visit_fields)
  then have "\<exists>new. stack (visit v st) = new @ stack st \<and> set new \<inter> visited st = {}"
    by blast
  moreover have "\<forall>x \<in> visited st. indices (visit v st) x = indices st x"
    using assms by (auto simp: visit_fields)
  moreover have "\<forall>x \<in> visited (visit v st) - visited st. index st \<le> idx (visit v st) x"
    by (auto simp: visited_visit idx_visit)
  ultimately show ?thesis
    by (simp add: ext_def visited_visit visit_fields subset_insertI)
qed

lemma sorted_idx_cong:
  assumes "\<forall>x \<in> set xs. idx st' x = idx st x"
    and "sorted_wrt (\<lambda>a b. idx st b < idx st a) xs"
  shows "sorted_wrt (\<lambda>a b. idx st' b < idx st' a) xs"
  using assms(2)
proof (rule sorted_wrt_mono_rel [rotated])
  fix x y assume "x \<in> set xs" "y \<in> set xs" "idx st y < idx st x"
  with assms(1) show "idx st' y < idx st' x" by simp
qed

lemma wf_stack_visit:
  assumes "wf_stack st" and "v \<notin> visited st"
  shows "wf_stack (visit v st)"
proof -
  from assms have st: "set (stack st) = onstack st" "onstack st \<subseteq> visited st"
    and lt: "\<forall>x \<in> visited st. idx st x < index st"
    and dm: "dom (lowlink st) = dom (indices st)"
    and so: "sorted_wrt (\<lambda>a b. idx st b < idx st a) (stack st)"
    by (simp_all add: wf_stack_def)
  from st assms(2) have nv: "v \<notin> set (stack st)" by blast
  have same: "\<forall>x \<in> set (stack st). idx (visit v st) x = idx st x"
    using nv by (auto simp: idx_visit)
  have 1: "dom (lowlink (visit v st)) = dom (indices (visit v st))"
    using dm by (simp add: visit_fields)
  have 2: "\<forall>x \<in> visited (visit v st). idx (visit v st) x < index (visit v st)"
    using lt by (auto simp: visited_visit idx_visit visit_fields less_Suc_eq)
  have 3: "set (stack (visit v st)) = onstack (visit v st)"
    using st by (simp add: visit_fields)
  have 4: "onstack (visit v st) \<subseteq> visited (visit v st)"
    using st by (auto simp: visit_fields visited_visit)
  have "\<forall>x \<in> set (stack st). idx (visit v st) x < idx (visit v st) v"
    using lt st nv by (auto simp: idx_visit)
  with sorted_idx_cong [OF same so]
  have 5: "sorted_wrt (\<lambda>a b. idx (visit v st) b < idx (visit v st) a) (stack (visit v st))"
    by (simp add: visit_fields)
  from 1 2 3 4 5 show ?thesis unfolding wf_stack_def by blast
qed

lemma wf_stackD:
  assumes "wf_stack st"
  shows "dom (lowlink st) = dom (indices st)"
    and "x \<in> visited st \<Longrightarrow> idx st x < index st"
    and "set (stack st) = onstack st"
    and "onstack st \<subseteq> visited st"
    and "sorted_wrt (\<lambda>a b. idx st b < idx st a) (stack st)"
  using assms by (simp_all add: wf_stack_def)

lemma wf_stateD:
  assumes "wf_state g G st"
  shows "wf_stack st" and "wf_color g G st" and "wf_reach g G st" and "wf_low g st"
    and "wf_sccs g st"
  using assms by (simp_all add: wf_state_def)

lemma onstack_idx_lt: "wf_stack st \<Longrightarrow> x \<in> onstack st \<Longrightarrow> idx st x < index st"
  by (auto simp: wf_stack_def)

lemma wf_color_visit:
  assumes "wf_color g G st" and "v \<notin> visited st"
  shows "wf_color g (insert v G) (visit v st)"
proof -
  from assms(1) have G: "G \<subseteq> onstack st"
    and fin: "\<forall>x \<in> finished st. \<forall>y. (x, y) \<in> edges g \<longrightarrow> y \<in> finished st"
    and blk: "\<forall>x \<in> onstack st - G. \<forall>y. (x, y) \<in> edges g \<longrightarrow> y \<in> visited st"
    by (simp_all add: wf_color_def)
  have 1: "insert v G \<subseteq> onstack (visit v st)"
    using G by (auto simp: visit_fields)
  have 2: "\<forall>x \<in> finished (visit v st). \<forall>y. (x, y) \<in> edges g \<longrightarrow> y \<in> finished (visit v st)"
    using fin by (simp add: finished_visit [OF assms(2)])
  have 3: "\<forall>x \<in> onstack (visit v st) - insert v G. \<forall>y. (x, y) \<in> edges g
      \<longrightarrow> y \<in> visited (visit v st)"
    using blk by (auto simp: visit_fields visited_visit)
  from 1 2 3 show ?thesis unfolding wf_color_def by blast
qed

lemma wf_reach_visit:
  assumes "wf_reach g G st" and "wf_stack st" and "v \<notin> visited st"
    and "G \<subseteq> onstack st" and "\<forall>x \<in> onstack st. reaches g x v"
  shows "wf_reach g (insert v G) (visit v st)"
proof -
  from assms(1) have up: "\<forall>x \<in> onstack st. \<forall>y \<in> onstack st. idx st x \<le> idx st y \<longrightarrow> reaches g x y"
    and gr: "\<forall>z \<in> onstack st. \<exists>r \<in> G. idx st r \<le> idx st z \<and> reaches g z r"
    by (simp_all add: wf_reach_def)
  from assms(2,3) have nv: "v \<notin> onstack st" by (auto simp: wf_stack_def)
  have 1: "\<forall>x \<in> onstack (visit v st). \<forall>y \<in> onstack (visit v st).
      idx (visit v st) x \<le> idx (visit v st) y \<longrightarrow> reaches g x y"
  proof (intro ballI impI)
    fix x y
    assume x: "x \<in> onstack (visit v st)" and y: "y \<in> onstack (visit v st)"
      and le: "idx (visit v st) x \<le> idx (visit v st) y"
    show "reaches g x y"
    proof (cases "y = v")
      case True
      with x assms(5) show ?thesis by (cases "x = v") (auto simp: visit_fields)
    next
      case False
      with y have yo: "y \<in> onstack st" by (simp add: visit_fields)
      show ?thesis
      proof (cases "x = v")
        case True
        with le False onstack_idx_lt [OF assms(2) yo] show ?thesis by (simp add: idx_visit)
      next
        case xf: False
        with x have "x \<in> onstack st" by (simp add: visit_fields)
        with up yo le False xf show ?thesis by (simp add: idx_visit)
      qed
    qed
  qed
  have 2: "\<forall>z \<in> onstack (visit v st). \<exists>r \<in> insert v G.
      idx (visit v st) r \<le> idx (visit v st) z \<and> reaches g z r"
  proof
    fix z assume z: "z \<in> onstack (visit v st)"
    show "\<exists>r \<in> insert v G. idx (visit v st) r \<le> idx (visit v st) z \<and> reaches g z r"
    proof (cases "z = v")
      case True
      then show ?thesis by auto
    next
      case False
      with z have "z \<in> onstack st" by (simp add: visit_fields)
      with gr obtain r where r: "r \<in> G" "idx st r \<le> idx st z" "reaches g z r" by blast
      with assms(4) nv have "r \<noteq> v" by auto
      with r False show ?thesis by (auto simp: idx_visit)
    qed
  qed
  from 1 2 show ?thesis unfolding wf_reach_def by blast
qed

lemma wf_low_visit:
  assumes "wf_low g st" and "wf_stack st" and "v \<notin> visited st"
  shows "wf_low g (visit v st)"
  unfolding wf_low_def
proof
  from assms(2,3) have nv: "v \<notin> onstack st" by (auto simp: wf_stack_def)
  fix x assume x: "x \<in> onstack (visit v st)"
  show "low (visit v st) x \<le> idx (visit v st) x
      \<and> (\<exists>y \<in> onstack (visit v st). idx (visit v st) y = low (visit v st) x \<and> reaches g x y)"
  proof (cases "x = v")
    case True
    then show ?thesis by (auto simp: low_visit idx_visit visit_fields)
  next
    case False
    with x have xo: "x \<in> onstack st" by (simp add: visit_fields)
    with assms(1) obtain y where y: "low st x \<le> idx st x" "y \<in> onstack st"
      "idx st y = low st x" "reaches g x y"
      by (auto simp: wf_low_def)
    with nv have "y \<noteq> v" by auto
    with y False show ?thesis by (auto simp: low_visit idx_visit visit_fields)
  qed
qed

lemma wf_sccs_visit:
  assumes "wf_sccs g st" and "v \<notin> visited st"
  shows "wf_sccs g (visit v st)"
  using assms(1) by (simp add: wf_sccs_def finished_visit [OF assms(2)] visit_fields)

lemma wf_state_visit:
  assumes "pre_dfs g G v st"
  shows "wf_state g (insert v G) (visit v st)"
proof -
  from assms have wf: "wf_state g G st" and nv: "v \<notin> visited st"
    and re: "\<forall>x \<in> onstack st. reaches g x v"
    by (simp_all add: pre_dfs_def)
  note p = wf_stateD [OF wf]
  from p(2) have G: "G \<subseteq> onstack st" by (simp add: wf_color_def)
  from wf_stack_visit [OF p(1) nv] wf_color_visit [OF p(2) nv]
    wf_reach_visit [OF p(3) p(1) nv G re] wf_low_visit [OF p(4) p(1) nv]
    wf_sccs_visit [OF p(5) nv]
  show ?thesis unfolding wf_state_def by blast
qed

lemma pre_loop_visit:
  assumes "pre_dfs g G v st"
  shows "pre_loop g (insert v G) v (successors g v) (visit v st)"
proof -
  from assms have wf: "wf_state g G st" and nv: "v \<notin> visited st"
    by (simp_all add: pre_dfs_def)
  note p = wf_stateD [OF wf]
  from p(2) have G: "G \<subseteq> onstack st" by (simp add: wf_color_def)
  have top: "\<forall>x \<in> insert v G. idx (visit v st) x \<le> idx (visit v st) v"
  proof
    fix x assume "x \<in> insert v G"
    with G onstack_idx_lt [OF p(1), of x] show "idx (visit v st) x \<le> idx (visit v st) v"
      by (auto simp: idx_visit)
  qed
  have le: "lowedge g v (set (successors g v)) (visit v st)"
    unfolding lowedge_def
  proof (intro allI impI)
    fix a b
    assume h: "(a, b) \<in> edges g \<and> a \<in> onstack (visit v st)
        \<and> idx (visit v st) v \<le> idx (visit v st) a
        \<and> (a = v \<longrightarrow> b \<notin> set (successors g v)) \<and> b \<in> onstack (visit v st)"
    have "a = v"
    proof (rule ccontr)
      assume "a \<noteq> v"
      with h have "a \<in> onstack st" "index st \<le> idx st a" by (auto simp: visit_fields idx_visit)
      with onstack_idx_lt [OF p(1), of a] show False by simp
    qed
    with h have False by (auto simp: edges_def)
    then show "low (visit v st) v \<le> idx (visit v st) b" ..
  qed
  from wf_state_visit [OF assms] top le show ?thesis
    unfolding pre_loop_def by simp
qed

lemma relow_fields:
  "indices (relow v m st) = indices st"
  "index (relow v m st) = index st"
  "stack (relow v m st) = stack st"
  "onstack (relow v m st) = onstack st"
  "sccs (relow v m st) = sccs st"
  "visited (relow v m st) = visited st"
  "finished (relow v m st) = finished st"
  "idx (relow v m st) = idx st"
  by (simp_all add: relow_def visited_def finished_def idx_def fun_eq_iff)

lemma low_relow: "low (relow v m st) x = (if x = v then min (low st v) m else low st x)"
  by (simp add: relow_def low_def)

lemma lowlink_relow: "x \<noteq> v \<Longrightarrow> lowlink (relow v m st) x = lowlink st x"
  by (simp add: relow_def)

lemma lower_relow:
  assumes "wf_stack st" and "v \<in> visited st"
  shows "lower v (Some m) st = Inr (relow v m st)"
proof -
  from assms have "v \<in> dom (lowlink st)" by (simp add: wf_stack_def visited_def)
  then obtain lv where "lowlink st v = Some lv" by auto
  then show ?thesis by (simp add: lower_def relow_def low_def)
qed

lemma ext_relow: "ext st (relow v m st)"
  by (simp add: ext_def relow_fields)

lemma wf_stack_relow:
  assumes "wf_stack st" and "v \<in> visited st"
  shows "wf_stack (relow v m st)"
proof -
  from assms have "dom (lowlink (relow v m st)) = dom (indices st)"
    by (auto simp: relow_def wf_stack_def visited_def)
  with assms(1) show ?thesis by (simp add: wf_stack_def relow_fields)
qed

lemma wf_low_relow:
  assumes "wf_low g st" and "v \<in> onstack st"
    and "m < low st v \<longrightarrow> (\<exists>y \<in> onstack st. idx st y = m \<and> reaches g v y)"
  shows "wf_low g (relow v m st)"
  unfolding wf_low_def relow_fields
proof
  fix x assume x: "x \<in> onstack st"
  with assms(1) have old: "low st x \<le> idx st x"
    "\<exists>y \<in> onstack st. idx st y = low st x \<and> reaches g x y"
    by (auto simp: wf_low_def)
  show "low (relow v m st) x \<le> idx st x
      \<and> (\<exists>y \<in> onstack st. idx st y = low (relow v m st) x \<and> reaches g x y)"
  proof (cases "x = v \<and> m < low st v")
    case True
    with assms(3) old show ?thesis by (auto simp: low_relow min_def)
  next
    case False
    then have "low (relow v m st) x = low st x" by (auto simp: low_relow min_def)
    with old show ?thesis by simp
  qed
qed

lemma wf_state_relow:
  assumes "wf_state g G st" and "v \<in> onstack st"
    and "m < low st v \<longrightarrow> (\<exists>y \<in> onstack st. idx st y = m \<and> reaches g v y)"
  shows "wf_state g G (relow v m st)"
proof -
  note p = wf_stateD [OF assms(1)]
  from p(1) assms(2) have v: "v \<in> visited st" by (auto simp: wf_stack_def)
  have "wf_color g G (relow v m st)" using p(2) by (simp add: wf_color_def relow_fields)
  moreover have "wf_reach g G (relow v m st)" using p(3) by (simp add: wf_reach_def relow_fields)
  moreover have "wf_sccs g (relow v m st)" using p(5) by (simp add: wf_sccs_def relow_fields)
  ultimately show ?thesis
    using wf_stack_relow [OF p(1) v] wf_low_relow [OF p(4) assms(2,3)]
    unfolding wf_state_def by blast
qed

lemma pre_loopD:
  assumes "pre_loop g G v ws st"
  shows "wf_state g G st" and "v \<in> G" and "\<And>x. x \<in> G \<Longrightarrow> idx st x \<le> idx st v"
    and "set ws \<subseteq> set (successors g v)"
    and "\<And>w. w \<in> set (successors g v) \<Longrightarrow> w \<notin> set ws \<Longrightarrow> w \<in> visited st"
    and "lowedge g v (set ws) st"
    and "v \<in> onstack st" and "v \<in> visited st"
proof -
  from assms show wf: "wf_state g G st" and vG: "v \<in> G" by (simp_all add: pre_loop_def)
  from assms show "\<And>x. x \<in> G \<Longrightarrow> idx st x \<le> idx st v" by (simp add: pre_loop_def)
  from assms show "set ws \<subseteq> set (successors g v)" by (simp add: pre_loop_def)
  from assms show "\<And>w. w \<in> set (successors g v) \<Longrightarrow> w \<notin> set ws \<Longrightarrow> w \<in> visited st"
    by (simp add: pre_loop_def)
  from assms show "lowedge g v (set ws) st" by (simp add: pre_loop_def)
  from wf vG show vo: "v \<in> onstack st" by (auto simp: wf_state_def wf_color_def)
  with wf show "v \<in> visited st" by (auto simp: wf_state_def wf_stack_def)
qed

text \<open>
  The three cases of the loop body: the successor is on the stack, is finished, or is new.
\<close>

lemma loop_onstack:
  assumes pre: "pre_loop g G v (w # ws) st" and w: "w \<in> onstack st"
  shows "pre_loop g G v ws (relow v (idx st w) st)"
proof -
  note p = pre_loopD [OF pre]
  let ?st = "relow v (idx st w) st"
  from p(4) have e: "(v, w) \<in> edges g" by (simp add: edges_def)
  have "idx st w < low st v \<longrightarrow> (\<exists>y \<in> onstack st. idx st y = idx st w \<and> reaches g v y)"
    using w e by (auto intro: reaches_edge)
  from wf_state_relow [OF p(1) p(7) this] have wf: "wf_state g G ?st" .
  have le: "lowedge g v (set ws) ?st"
    unfolding lowedge_def relow_fields
  proof (intro allI impI)
    fix a b
    assume h: "(a, b) \<in> edges g \<and> a \<in> onstack st \<and> idx st v \<le> idx st a
        \<and> (a = v \<longrightarrow> b \<notin> set ws) \<and> b \<in> onstack st"
    show "low ?st v \<le> idx st b"
    proof (cases "a = v \<and> b = w")
      case True
      then show ?thesis by (simp add: low_relow)
    next
      case False
      with h have "a = v \<longrightarrow> b \<notin> set (w # ws)" by auto
      with h p(6) have "low st v \<le> idx st b" unfolding lowedge_def by blast
      then show ?thesis by (simp add: low_relow)
    qed
  qed
  have vis: "\<forall>u \<in> set (successors g v) - set ws. u \<in> visited ?st"
  proof
    fix u assume u: "u \<in> set (successors g v) - set ws"
    show "u \<in> visited ?st"
    proof (cases "u = w")
      case True
      with w wf_stackD(4) [OF wf_stateD(1) [OF p(1)]] show ?thesis
        by (auto simp: relow_fields)
    next
      case False
      with u p(5) [of u] show ?thesis by (simp add: relow_fields)
    qed
  qed
  from wf p(2,3,4) vis le show ?thesis
    unfolding pre_loop_def by (simp add: relow_fields)
qed

lemma loop_finished:
  assumes pre: "pre_loop g G v (w # ws) st" and w: "w \<in> visited st" "w \<notin> onstack st"
  shows "pre_loop g G v ws st"
proof -
  note p = pre_loopD [OF pre]
  have le: "lowedge g v (set ws) st"
    unfolding lowedge_def
  proof (intro allI impI)
    fix a b
    assume h: "(a, b) \<in> edges g \<and> a \<in> onstack st \<and> idx st v \<le> idx st a
        \<and> (a = v \<longrightarrow> b \<notin> set ws) \<and> b \<in> onstack st"
    with w have "b \<noteq> w" by auto
    with h have "a = v \<longrightarrow> b \<notin> set (w # ws)" by auto
    with h p(6) show "low st v \<le> idx st b" unfolding lowedge_def by blast
  qed
  have vis: "\<forall>u \<in> set (successors g v) - set ws. u \<in> visited st"
    using p(5) w(1) by auto
  from p(1,2,3,4) vis le show ?thesis
    unfolding pre_loop_def by simp
qed

lemma stack_reaches_top:
  assumes pre: "pre_loop g G v ws st" and x: "x \<in> onstack st"
  shows "reaches g x v"
proof -
  note p = pre_loopD [OF pre]
  from wf_stateD(3) [OF p(1)] x obtain r where r: "r \<in> G" "idx st r \<le> idx st x" "reaches g x r"
    by (auto simp: wf_reach_def)
  from r(1) wf_stateD(2) [OF p(1)] have ro: "r \<in> onstack st" by (auto simp: wf_color_def)
  from p(3) [OF r(1)] ro p(7) wf_stateD(3) [OF p(1)] have "reaches g r v"
    by (auto simp: wf_reach_def)
  with r(3) show ?thesis by (rule reaches_trans)
qed

lemma loop_new:
  assumes pre: "pre_loop g G v (w # ws) st" and w: "w \<notin> visited st"
  shows "pre_dfs g G w st"
proof -
  note p = pre_loopD [OF pre]
  from p(4) have e: "(v, w) \<in> edges g" by (simp add: edges_def)
  have "\<forall>x \<in> onstack st. reaches g x w"
    using stack_reaches_top [OF pre] e by (auto intro: reaches_step)
  with p(1) w show ?thesis by (simp add: pre_dfs_def)
qed

lemma post_dfsD:
  assumes "post_dfs g G v st st'"
  shows "wf_state g G st'" and "ext st st'" and "v \<in> visited st'"
    and "\<And>x. x \<in> visited st \<Longrightarrow> lowlink st' x = lowlink st x"
    and "(stack st' = stack st \<and> low st' v = idx st' v)
         \<or> ((\<exists>new. stack st' = new @ v # stack st) \<and> lowedge g v {} st')"
  using assms by (simp_all add: post_dfs_def)

lemma extD:
  assumes "ext st st'"
  shows "visited st \<subseteq> visited st'"
    and "\<And>x. x \<in> visited st \<Longrightarrow> idx st' x = idx st x"
    and "\<And>x. x \<in> visited st' \<Longrightarrow> x \<notin> visited st \<Longrightarrow> index st \<le> idx st' x"
    and "\<exists>new. stack st' = new @ stack st \<and> set new \<inter> visited st = {}"
  using assms by (auto simp: ext_def idx_def)

lemma sorted_above:
  assumes "wf_stack st" and "stack st = new @ old" and "a \<in> set new" and "b \<in> set old"
  shows "idx st b < idx st a"
  using wf_stackD(5) [OF assms(1)] assms(2,3,4) by (auto simp: sorted_wrt_append)

lemma sorted_above_eq:
  assumes "wf_stack st" and "stack st = new @ w # old" and "a \<in> set (new @ [w])"
  shows "idx st w \<le> idx st a"
proof (cases "a = w")
  case False
  with assms(3) have "a \<in> set new" by auto
  moreover from assms(2) have "stack st = new @ (w # old)" by simp
  ultimately have "idx st w < idx st a" using sorted_above [OF assms(1), of new "w # old" a w]
    by simp
  then show ?thesis by simp
qed simp

lemma loop_returned:
  assumes pre: "pre_loop g G v (w # ws) st" and w: "w \<notin> visited st"
    and post: "post_dfs g G w st st'"
  shows "lower v (lowlink st' w) st' = Inr (relow v (low st' w) st')"
    and "pre_loop g G v ws (relow v (low st' w) st')"
proof -
  note p = pre_loopD [OF pre]
  note q = post_dfsD [OF post]
  note e = extD [OF q(2)]
  note s = wf_stackD [OF wf_stateD(1) [OF p(1)]]
  note s' = wf_stackD [OF wf_stateD(1) [OF q(1)]]
  let ?m = "low st' w"
  let ?st = "relow v ?m st'"
  from e(4) obtain new where new: "stack st' = new @ stack st" "set new \<inter> visited st = {}"
    by blast
  have sub: "onstack st \<subseteq> onstack st'"
    using new(1) s(3) s'(3) by auto
  have vo': "v \<in> onstack st'" using p(7) sub by blast
  have vv': "v \<in> visited st'" using p(8) e(1) by blast
  have idxv: "idx st' v = idx st v" using e(2) [OF p(8)] .
  have lowv: "low st' v = low st v" using q(4) [OF p(8)] by (simp add: low_def)
  have edge: "(v, w) \<in> edges g" using p(4) by (simp add: edges_def)
  have lvle: "low st v \<le> idx st v"
    using wf_stateD(4) [OF p(1)] p(7) by (auto simp: wf_low_def)
  from q(3) s'(1) have "w \<in> dom (lowlink st')" by (simp add: visited_def)
  then have "lowlink st' w = Some ?m" by (auto simp: low_def)
  with lower_relow [OF wf_stateD(1) [OF q(1)] vv', of ?m]
  show "lower v (lowlink st' w) st' = Inr ?st" by simp
  have wit: "?m < low st' v \<longrightarrow> (\<exists>y \<in> onstack st'. idx st' y = ?m \<and> reaches g v y)"
  proof
    assume lt: "?m < low st' v"
    from q(5) show "\<exists>y \<in> onstack st'. idx st' y = ?m \<and> reaches g v y"
    proof
      assume "stack st' = stack st \<and> low st' w = idx st' w"
      moreover from e(3) [OF q(3) w] s(2) [OF p(8)] have "idx st v < idx st' w" by simp
      ultimately show ?thesis using lt lowv lvle by simp
    next
      assume "(\<exists>new. stack st' = new @ w # stack st) \<and> lowedge g w {} st'"
      then obtain new' where "stack st' = new' @ w # stack st" by blast
      then have "w \<in> set (stack st')" by simp
      then have "w \<in> onstack st'" by (simp only: s'(3))
      with wf_stateD(4) [OF q(1)] obtain y
        where "y \<in> onstack st'" "idx st' y = ?m" "reaches g w y"
        by (auto simp: wf_low_def)
      with edge show ?thesis by (auto intro: reaches_trans reaches_edge)
    qed
  qed
  from wf_state_relow [OF q(1) vo' wit] have wf: "wf_state g G ?st" .
  have top: "\<forall>x \<in> G. idx ?st x \<le> idx ?st v"
  proof
    fix x assume x: "x \<in> G"
    with wf_stateD(2) [OF p(1)] s(4) have "x \<in> visited st" by (auto simp: wf_color_def)
    with p(3) [OF x] e(2) idxv show "idx ?st x \<le> idx ?st v" by (simp add: relow_fields)
  qed
  have vis: "\<forall>u \<in> set (successors g v) - set ws. u \<in> visited ?st"
  proof
    fix u assume u: "u \<in> set (successors g v) - set ws"
    show "u \<in> visited ?st"
    proof (cases "u = w")
      case True
      with q(3) show ?thesis by (simp add: relow_fields)
    next
      case False
      with u p(5) [of u] e(1) show ?thesis by (auto simp: relow_fields)
    qed
  qed
  have le: "lowedge g v (set ws) ?st"
    unfolding lowedge_def relow_fields
  proof (intro allI impI)
    fix a b
    assume h: "(a, b) \<in> edges g \<and> a \<in> onstack st' \<and> idx st' v \<le> idx st' a
        \<and> (a = v \<longrightarrow> b \<notin> set ws) \<and> b \<in> onstack st'"
    have min1: "low ?st v \<le> low st v" by (simp add: low_relow lowv)
    have min2: "low ?st v \<le> low st' w" by (simp add: low_relow)
    show "low ?st v \<le> idx st' b"
    proof (cases "b \<in> set new")
      case True
      from p(7) s(3) have "v \<in> set (stack st)" by simp
      from sorted_above [OF wf_stateD(1) [OF q(1)] new(1) True this] idxv lvle min1
      show ?thesis by simp
    next
      case False
      with h new(1) s'(3) s(3) have bo: "b \<in> onstack st" by auto
      with s(4) have bv: "b \<in> visited st" by blast
      show ?thesis
      proof (cases "a \<in> set new")
        case an: True
        then have "new \<noteq> []" by auto
        with new(1) have "stack st' \<noteq> stack st" by simp
        with q(5) have "\<exists>new'. stack st' = new' @ w # stack st" and lw: "lowedge g w {} st'"
          by blast+
        then obtain new' where n': "stack st' = new' @ w # stack st" by blast
        from n' new(1) have "new = new' @ [w]" by simp
        with an sorted_above_eq [OF wf_stateD(1) [OF q(1)] n'] have "idx st' w \<le> idx st' a"
          by simp
        with lw h have "low st' w \<le> idx st' b" unfolding lowedge_def by blast
        with min2 show ?thesis by simp
      next
        case False
        with h new(1) s'(3) s(3) have ao: "a \<in> onstack st" by auto
        with s(4) have av: "a \<in> visited st" by blast
        from bv w have "b \<noteq> w" by auto
        with h have "a = v \<longrightarrow> b \<notin> set (w # ws)" by auto
        moreover from h idxv e(2) [OF av] have "idx st v \<le> idx st a" by simp
        ultimately have "low st v \<le> idx st b"
          using p(6) h ao bo unfolding lowedge_def by blast
        with min1 e(2) [OF bv] show ?thesis by simp
      qed
    qed
  qed
  from wf p(2,4) top vis le show "pre_loop g G v ws ?st"
    unfolding pre_loop_def by simp
qed

lemma post_loop_compose:
  assumes "ext st st2" and "\<forall>x \<in> visited st - {v}. lowlink st2 x = lowlink st x"
    and "post_loop g G v st2 st3"
  shows "post_loop g G v st st3"
proof -
  from assms(3) have wf: "wf_state g G st3" and e: "ext st2 st3"
    and fr: "\<forall>x \<in> visited st2 - {v}. lowlink st3 x = lowlink st2 x"
    and rest: "\<forall>w \<in> set (successors g v). w \<in> visited st3" "lowedge g v {} st3"
    by (simp_all add: post_loop_def)
  from assms(1) have sub: "visited st \<subseteq> visited st2" by (simp add: ext_def)
  have "\<forall>x \<in> visited st - {v}. lowlink st3 x = lowlink st x"
  proof
    fix x assume x: "x \<in> visited st - {v}"
    with sub have "x \<in> visited st2 - {v}" by blast
    with fr have "lowlink st3 x = lowlink st2 x" by blast
    with assms(2) x show "lowlink st3 x = lowlink st x" by simp
  qed
  with wf ext_trans [OF assms(1) e] rest show ?thesis
    unfolding post_loop_def by blast
qed

lemma post_loop_done:
  assumes "pre_loop g G v [] st"
  shows "post_loop g G v st st"
  using assms unfolding pre_loop_def post_loop_def by (simp add: ext_refl)

lemma post_loopD:
  assumes "post_loop g G v st st'"
  shows "wf_state g G st'" and "ext st st'"
    and "\<And>x. x \<in> visited st \<Longrightarrow> x \<noteq> v \<Longrightarrow> lowlink st' x = lowlink st x"
    and "\<And>w. (v, w) \<in> edges g \<Longrightarrow> w \<in> visited st'"
    and "lowedge g v {} st'"
  using assms by (simp_all add: post_loop_def edges_def)

lemma sorted_idx_distinct:
  "sorted_wrt (\<lambda>a b. idx st b < idx st a) xs \<Longrightarrow> distinct xs"
  by (induction xs) auto

lemma closing_facts:
  assumes pre: "pre_dfs g G v st" and post: "post_loop g (insert v G) v (visit v st) st2"
  shows "\<exists>new. stack st2 = new @ v # stack st \<and> set new \<inter> insert v (visited st) = {}"
    and "ext st st2"
    and "\<And>x. x \<in> visited st \<Longrightarrow> lowlink st2 x = lowlink st x"
    and "v \<in> onstack st2" and "v \<in> visited st2"
    and "idx st2 v = index st"
    and "\<And>x. x \<in> onstack st \<Longrightarrow> x \<in> onstack st2 \<and> idx st2 x < idx st2 v"
    and "G \<subseteq> onstack st"
proof -
  from pre have wf: "wf_state g G st" and nv: "v \<notin> visited st" by (simp_all add: pre_dfs_def)
  note q = post_loopD [OF post]
  note s = wf_stackD [OF wf_stateD(1) [OF wf]]
  note s2 = wf_stackD [OF wf_stateD(1) [OF q(1)]]
  note e = extD [OF q(2)]
  from e(4) obtain new where new: "stack st2 = new @ stack (visit v st)"
    "set new \<inter> visited (visit v st) = {}" by blast
  then have st2: "stack st2 = new @ v # stack st" "set new \<inter> insert v (visited st) = {}"
    by (simp_all add: visit_fields visited_visit)
  then show "\<exists>new. stack st2 = new @ v # stack st \<and> set new \<inter> insert v (visited st) = {}"
    by blast
  show "ext st st2" using ext_trans [OF ext_visit [OF nv] q(2)] .
  show "\<And>x. x \<in> visited st \<Longrightarrow> lowlink st2 x = lowlink st x"
  proof -
    fix x assume x: "x \<in> visited st"
    with nv have "x \<noteq> v" by auto
    with q(3) [of x] x show "lowlink st2 x = lowlink st x"
      by (simp add: visited_visit visit_fields)
  qed
  have "v \<in> set (stack st2)" using st2(1) by simp
  then show vo: "v \<in> onstack st2" by (simp only: s2(3))
  with s2(4) show "v \<in> visited st2" by blast
  have "v \<in> visited (visit v st)" by (simp add: visited_visit)
  from e(2) [OF this] show iv: "idx st2 v = index st" by (simp add: idx_visit)
  show "\<And>x. x \<in> onstack st \<Longrightarrow> x \<in> onstack st2 \<and> idx st2 x < idx st2 v"
  proof -
    fix x assume x: "x \<in> onstack st"
    with s(3) have "x \<in> set (stack st2)" using st2(1) by simp
    then have 1: "x \<in> onstack st2" by (simp only: s2(3))
    from x s(4) have xv: "x \<in> visited st" by blast
    with nv have "x \<noteq> v" by auto
    with xv have "x \<in> visited (visit v st)" by (simp add: visited_visit)
    from e(2) [OF this] \<open>x \<noteq> v\<close> have "idx st2 x = idx st x" by (simp add: idx_visit)
    with s(2) [OF xv] iv 1 show "x \<in> onstack st2 \<and> idx st2 x < idx st2 v" by simp
  qed
  from wf_stateD(2) [OF wf] show "G \<subseteq> onstack st" by (simp add: wf_color_def)
qed

text \<open>
  After the loop: a node whose low link is below its index stays on the stack; a node
  whose low link is its index is the root of its component, and the stack from that node
  upwards is the component.
\<close>

lemma close_not_root:
  assumes pre: "pre_dfs g G v st" and post: "post_loop g (insert v G) v (visit v st) st2"
    and nr: "low st2 v \<noteq> idx st2 v"
  shows "post_dfs g G v st st2"
proof -
  note q = post_loopD [OF post]
  note c = closing_facts [OF pre post]
  note w2 = wf_stateD [OF q(1)]
  from w2(2) have col: "insert v G \<subseteq> onstack st2"
    "\<forall>x \<in> finished st2. \<forall>y. (x, y) \<in> edges g \<longrightarrow> y \<in> finished st2"
    "\<forall>x \<in> onstack st2 - insert v G. \<forall>y. (x, y) \<in> edges g \<longrightarrow> y \<in> visited st2"
    by (simp_all add: wf_color_def)
  have "\<forall>x \<in> onstack st2 - G. \<forall>y. (x, y) \<in> edges g \<longrightarrow> y \<in> visited st2"
  proof (intro ballI allI impI)
    fix x y assume "x \<in> onstack st2 - G" "(x, y) \<in> edges g"
    with col(3) q(4) show "y \<in> visited st2" by (cases "x = v") auto
  qed
  with col have color: "wf_color g G st2" by (simp add: wf_color_def)
  from w2(3) have up: "\<forall>x \<in> onstack st2. \<forall>y \<in> onstack st2. idx st2 x \<le> idx st2 y \<longrightarrow> reaches g x y"
    and gr: "\<forall>z \<in> onstack st2. \<exists>r \<in> insert v G. idx st2 r \<le> idx st2 z \<and> reaches g z r"
    by (simp_all add: wf_reach_def)
  from w2(4) c(4) obtain y where y: "low st2 v \<le> idx st2 v" "y \<in> onstack st2"
    "idx st2 y = low st2 v" "reaches g v y"
    by (auto simp: wf_low_def)
  with nr have ylt: "idx st2 y < idx st2 v" by simp
  from gr y(2) obtain r' where r': "r' \<in> insert v G" "idx st2 r' \<le> idx st2 y" "reaches g y r'"
    by blast
  with ylt have r'G: "r' \<in> G" by auto
  have "\<forall>z \<in> onstack st2. \<exists>r \<in> G. idx st2 r \<le> idx st2 z \<and> reaches g z r"
  proof
    fix z assume "z \<in> onstack st2"
    with gr obtain r where r: "r \<in> insert v G" "idx st2 r \<le> idx st2 z" "reaches g z r"
      by blast
    show "\<exists>r \<in> G. idx st2 r \<le> idx st2 z \<and> reaches g z r"
    proof (cases "r = v")
      case True
      with r y(4) r'(3) have "reaches g z r'" by (blast intro: reaches_trans)
      moreover from True r(2) ylt r'(2) have "idx st2 r' \<le> idx st2 z" by simp
      ultimately show ?thesis using r'G by blast
    next
      case False
      with r show ?thesis by blast
    qed
  qed
  with up have reach: "wf_reach g G st2" by (simp add: wf_reach_def)
  from w2(1) color reach w2(4,5) have wf: "wf_state g G st2" by (simp add: wf_state_def)
  from c(1) have "\<exists>new. stack st2 = new @ v # stack st" by blast
  with wf c(2,3,5) q(5) show ?thesis
    unfolding post_dfs_def by blast
qed

lemma popped_fields:
  "indices (popped st c r) = indices st"
  "lowlink (popped st c r) = lowlink st"
  "index (popped st c r) = index st"
  "stack (popped st c r) = r"
  "onstack (popped st c r) = onstack st - set c"
  "sccs (popped st c r) = (if length c > 1 then sccs st @ [c] else sccs st)"
  "visited (popped st c r) = visited st"
  "idx (popped st c r) = idx st"
  "low (popped st c r) = low st"
  by (simp_all add: popped_def visited_def idx_def low_def fun_eq_iff)

lemma close_component_root:
  assumes "wf_stack st" and "stack st = new @ v # rest" and "low st v = idx st v"
  shows "close_component v st = Inr (popped st (new @ [v]) rest)"
proof -
  note s = wf_stackD [OF assms(1)]
  from assms(2) s(3) have vo: "v \<in> onstack st" by auto
  with s(4) have vi: "v \<in> dom (indices st)" by (auto simp: visited_def)
  with s(1) have "v \<in> dom (lowlink st)" by simp
  then obtain lv where lv: "lowlink st v = Some lv" by auto
  from vi obtain iv where iv: "indices st v = Some iv" by auto
  note li = lv iv
  with assms(3) have "lv = iv" by (simp add: low_def idx_def)
  from sorted_idx_distinct [OF s(5)] assms(2) have d: "distinct (new @ [v])" by simp
  from assms(2) s(3) have sub: "set (new @ [v]) \<subseteq> onstack st" by auto
  from pop_component_segment [OF d sub, of rest "[]"] assms(2)
  have "pop_component v (stack st) (onstack st) [] =
      Inr (rest, onstack st - set (new @ [v]), new @ [v])" by simp
  with li \<open>lv = iv\<close> show ?thesis
    by (simp add: close_component_def popped_def)
qed

lemma close_component_not_root:
  assumes "wf_stack st" and "v \<in> visited st" and "low st v \<noteq> idx st v"
  shows "close_component v st = Inr st"
proof -
  from assms(1,2) have "v \<in> dom (indices st)" "v \<in> dom (lowlink st)"
    by (simp_all add: visited_def wf_stack_def)
  then obtain lv iv where "lowlink st v = Some lv" "indices st v = Some iv" by auto
  with assms(3) show ?thesis by (simp add: close_component_def low_def idx_def)
qed

lemma root_facts:
  assumes pre: "pre_dfs g G v st" and post: "post_loop g (insert v G) v (visit v st) st2"
    and root: "low st2 v = idx st2 v" and stk: "stack st2 = new @ v # stack st"
  shows "set (new @ [v]) \<subseteq> onstack st2"
    and "onstack st2 - set (new @ [v]) = onstack st"
    and "\<And>x. x \<in> set (new @ [v]) \<Longrightarrow> idx st2 v \<le> idx st2 x"
    and "\<And>x y. x \<in> set (new @ [v]) \<Longrightarrow> (x, y) \<in> edges g \<Longrightarrow>
           y \<in> visited st2 \<and> y \<notin> onstack st"
    and "\<And>x. x \<in> set (new @ [v]) \<Longrightarrow> reaches g v x \<and> reaches g x v"
proof -
  from pre have wf: "wf_state g G st" and nv: "v \<notin> visited st" by (simp_all add: pre_dfs_def)
  note q = post_loopD [OF post]
  note c = closing_facts [OF pre post]
  note s = wf_stackD [OF wf_stateD(1) [OF wf]]
  note s2 = wf_stackD [OF wf_stateD(1) [OF q(1)]]
  note w2 = wf_stateD [OF q(1)]
  from stk s2(3) show sub: "set (new @ [v]) \<subseteq> onstack st2" by auto
  from sorted_idx_distinct [OF s2(5)] stk have "distinct (new @ v # stack st)" by simp
  then have "set (new @ [v]) \<inter> set (stack st) = {}" by auto
  moreover from stk s2(3) have "onstack st2 = set (new @ [v]) \<union> set (stack st)" by auto
  ultimately show rest: "onstack st2 - set (new @ [v]) = onstack st"
    using s(3) by auto
  show above: "\<And>x. x \<in> set (new @ [v]) \<Longrightarrow> idx st2 v \<le> idx st2 x"
    using sorted_above_eq [OF w2(1) stk] .
  have notG: "\<And>x. x \<in> set (new @ [v]) \<Longrightarrow> x \<noteq> v \<Longrightarrow> x \<in> onstack st2 - insert v G"
  proof -
    fix x assume x: "x \<in> set (new @ [v])" "x \<noteq> v"
    from rest x(1) have "x \<notin> onstack st" by auto
    with c(8) x sub show "x \<in> onstack st2 - insert v G" by auto
  qed
  show "\<And>x y. x \<in> set (new @ [v]) \<Longrightarrow> (x, y) \<in> edges g \<Longrightarrow>
           y \<in> visited st2 \<and> y \<notin> onstack st"
  proof -
    fix x y assume x: "x \<in> set (new @ [v])" and e: "(x, y) \<in> edges g"
    have yv: "y \<in> visited st2"
    proof (cases "x = v")
      case True
      with q(4) e show ?thesis by simp
    next
      case False
      from notG [OF x False] w2(2) e show ?thesis by (auto simp: wf_color_def)
    qed
    have "y \<notin> onstack st"
    proof
      assume y: "y \<in> onstack st"
      from c(7) [OF y] have yo: "y \<in> onstack st2" and lt: "idx st2 y < idx st2 v" by simp_all
      from x sub have xo: "x \<in> onstack st2" by blast
      from q(5) e xo above [OF x] yo have "low st2 v \<le> idx st2 y"
        unfolding lowedge_def by blast
      with root lt show False by simp
    qed
    with yv show "y \<in> visited st2 \<and> y \<notin> onstack st" ..
  qed
  show "\<And>x. x \<in> set (new @ [v]) \<Longrightarrow> reaches g v x \<and> reaches g x v"
  proof -
    fix x assume x: "x \<in> set (new @ [v])"
    from x sub have xo: "x \<in> onstack st2" by blast
    from w2(3) have up: "\<forall>a \<in> onstack st2. \<forall>b \<in> onstack st2. idx st2 a \<le> idx st2 b \<longrightarrow> reaches g a b"
      and gr: "\<forall>z \<in> onstack st2. \<exists>r \<in> insert v G. idx st2 r \<le> idx st2 z \<and> reaches g z r"
      by (simp_all add: wf_reach_def)
    from up c(4) xo above [OF x] have 1: "reaches g v x" by blast
    from gr xo obtain r where r: "r \<in> insert v G" "reaches g x r" by blast
    have "r \<in> onstack st2 \<and> idx st2 r \<le> idx st2 v"
    proof (cases "r = v")
      case True
      with c(4) show ?thesis by simp
    next
      case False
      with r(1) c(8) have "r \<in> onstack st" by auto
      from c(7) [OF this] show ?thesis by simp
    qed
    with up c(4) have "reaches g r v" by blast
    with r(2) have "reaches g x v" by (rule reaches_trans)
    with 1 show "reaches g v x \<and> reaches g x v" ..
  qed
qed

lemma root_finished:
  assumes pre: "pre_dfs g G v st" and post: "post_loop g (insert v G) v (visit v st) st2"
    and root: "low st2 v = idx st2 v" and stk: "stack st2 = new @ v # stack st"
  shows "finished (popped st2 (new @ [v]) (stack st)) = finished st2 \<union> set (new @ [v])"
    and "finished st2 \<inter> set (new @ [v]) = {}"
    and "\<forall>x \<in> finished (popped st2 (new @ [v]) (stack st)). \<forall>y. (x, y) \<in> edges g
          \<longrightarrow> y \<in> finished (popped st2 (new @ [v]) (stack st))"
    and "set (new @ [v]) = scc_of g v"
proof -
  note q = post_loopD [OF post]
  note r = root_facts [OF pre post root stk]
  note s2 = wf_stackD [OF wf_stateD(1) [OF q(1)]]
  let ?C = "set (new @ [v])"
  let ?st3 = "popped st2 (new @ [v]) (stack st)"
  from r(1) s2(4) have Cv: "?C \<subseteq> visited st2" by blast
  show fin: "finished ?st3 = finished st2 \<union> ?C"
    using Cv r(1) by (auto simp: finished_def popped_fields)
  show dis: "finished st2 \<inter> ?C = {}"
    using r(1) by (auto simp: finished_def)
  from wf_stateD(2) [OF q(1)]
  have old: "\<forall>x \<in> finished st2. \<forall>y. (x, y) \<in> edges g \<longrightarrow> y \<in> finished st2"
    by (simp add: wf_color_def)
  show closed: "\<forall>x \<in> finished ?st3. \<forall>y. (x, y) \<in> edges g \<longrightarrow> y \<in> finished ?st3"
  proof (intro ballI allI impI)
    fix x y assume x: "x \<in> finished ?st3" and e: "(x, y) \<in> edges g"
    show "y \<in> finished ?st3"
    proof (cases "x \<in> ?C")
      case True
      have "finished ?st3 = visited st2 - onstack st"
        by (simp only: finished_def popped_fields r(2))
      with r(4) [OF True e] show ?thesis by simp
    next
      case False
      with x fin have "x \<in> finished st2" by auto
      with old e have "y \<in> finished st2" by blast
      with fin show ?thesis by blast
    qed
  qed
  show "?C = scc_of g v"
  proof
    show "?C \<subseteq> scc_of g v" using r(5) by (auto simp: scc_of_def)
    show "scc_of g v \<subseteq> ?C"
    proof
      fix y assume y: "y \<in> scc_of g v"
      have v3: "v \<in> finished ?st3" using fin by simp
      from y have "reaches g v y" by (simp add: scc_of_def)
      from closed_reaches [OF this v3] closed have "y \<in> finished ?st3" by blast
      moreover have "y \<notin> finished st2"
      proof
        assume yf: "y \<in> finished st2"
        from y have "reaches g y v" by (simp add: scc_of_def)
        from closed_reaches [OF this yf] old have "v \<in> finished st2" by blast
        with dis show False by auto
      qed
      ultimately show "y \<in> ?C" using fin by blast
    qed
  qed
qed

lemma nontrivial_component:
  assumes "distinct (new @ [v])"
  shows "nontrivial (set (new @ [v])) \<longleftrightarrow> 1 < length (new @ [v])"
proof
  assume "nontrivial (set (new @ [v]))"
  then obtain x y where "x \<in> set (new @ [v])" "y \<in> set (new @ [v])" "x \<noteq> y"
    by (auto simp: nontrivial_def)
  then have "new \<noteq> []" by auto
  then show "1 < length (new @ [v])" by (cases new) simp_all
next
  assume "1 < length (new @ [v])"
  then obtain a new' where "new = a # new'" by (cases new) simp_all
  with assms have "a \<in> set (new @ [v])" "v \<in> set (new @ [v])" "a \<noteq> v" by auto
  then show "nontrivial (set (new @ [v]))" unfolding nontrivial_def by blast
qed

lemma wf_sccs_popped:
  assumes old: "wf_sccs g st2"
    and fin: "finished st3 = finished st2 \<union> set c" and dis: "finished st2 \<inter> set c = {}"
    and scc: "set c = scc_of g v" and d: "distinct c" and c: "c = new @ [v]"
    and sccs: "sccs st3 = (if length c > 1 then sccs st2 @ [c] else sccs st2)"
  shows "wf_sccs g st3"
proof -
  from old have od: "distinct (concat (sccs st2))"
    and os: "set ` set (sccs st2) = {S. is_scc g S \<and> S \<subseteq> finished st2 \<and> nontrivial S}"
    by (simp_all add: wf_sccs_def)
  have isC: "is_scc g (set c)" unfolding scc by (rule is_scc_scc_of)
  have ne: "set c \<noteq> {}" using c by simp
  have nt: "nontrivial (set c) \<longleftrightarrow> 1 < length c"
    using nontrivial_component [of new v] d c by simp
  have split: "{S. is_scc g S \<and> S \<subseteq> finished st3 \<and> nontrivial S} =
      {S. is_scc g S \<and> S \<subseteq> finished st2 \<and> nontrivial S}
      \<union> (if 1 < length c then {set c} else {})"
  proof (intro set_eqI iffI)
    fix S assume "S \<in> {S. is_scc g S \<and> S \<subseteq> finished st3 \<and> nontrivial S}"
    then have S: "is_scc g S" "S \<subseteq> finished st2 \<union> set c" "nontrivial S"
      by (simp_all add: fin)
    show "S \<in> {S. is_scc g S \<and> S \<subseteq> finished st2 \<and> nontrivial S}
        \<union> (if 1 < length c then {set c} else {})"
    proof (cases "S \<inter> set c = {}")
      case True
      with S show ?thesis by auto
    next
      case False
      then obtain x where "x \<in> S" "x \<in> set c" by auto
      from scc_disjoint_or_equal [OF S(1) isC this] have "S = set c" .
      with S(3) nt show ?thesis by simp
    qed
  next
    fix S assume a: "S \<in> {S. is_scc g S \<and> S \<subseteq> finished st2 \<and> nontrivial S}
        \<union> (if 1 < length c then {set c} else {})"
    show "S \<in> {S. is_scc g S \<and> S \<subseteq> finished st3 \<and> nontrivial S}"
    proof (cases "S = set c \<and> 1 < length c")
      case True
      with isC nt fin show ?thesis by auto
    next
      case False
      with a have "is_scc g S \<and> S \<subseteq> finished st2 \<and> nontrivial S"
        by (auto split: if_splits)
      with fin show ?thesis by auto
    qed
  qed
  have sets: "set ` set (sccs st3) = {S. is_scc g S \<and> S \<subseteq> finished st3 \<and> nontrivial S}"
    unfolding split sccs using os by auto
  have "\<forall>S \<in> set (sccs st2). set S \<subseteq> finished st2"
  proof
    fix S assume "S \<in> set (sccs st2)"
    then have "set S \<in> set ` set (sccs st2)" by blast
    with os show "set S \<subseteq> finished st2" by auto
  qed
  then have "set (concat (sccs st2)) \<inter> set c = {}" using dis by auto
  with od d have "distinct (concat (sccs st3))" unfolding sccs by auto
  with sets show ?thesis by (simp add: wf_sccs_def)
qed

lemma close_root:
  assumes pre: "pre_dfs g G v st" and post: "post_loop g (insert v G) v (visit v st) st2"
    and root: "low st2 v = idx st2 v" and stk: "stack st2 = new @ v # stack st"
  shows "post_dfs g G v st (popped st2 (new @ [v]) (stack st))"
proof -
  from pre have wf: "wf_state g G st" and nv: "v \<notin> visited st" by (simp_all add: pre_dfs_def)
  note q = post_loopD [OF post]
  note c = closing_facts [OF pre post]
  note r = root_facts [OF pre post root stk]
  note f = root_finished [OF pre post root stk]
  note s = wf_stackD [OF wf_stateD(1) [OF wf]]
  note s2 = wf_stackD [OF wf_stateD(1) [OF q(1)]]
  note w2 = wf_stateD [OF q(1)]
  let ?c = "new @ [v]"
  let ?st3 = "popped st2 ?c (stack st)"
  have on3: "onstack ?st3 = onstack st" by (simp only: popped_fields r(2))
  have sub: "onstack st \<subseteq> onstack st2" using c(7) by blast
  have below: "\<And>x. x \<in> onstack st \<Longrightarrow> idx st2 x < idx st2 v" using c(7) by blast
  have vno: "v \<notin> onstack st" using nv s(4) by blast
  txt \<open>the stack\<close>
  from s2(5) stk have "sorted_wrt (\<lambda>a b. idx st2 b < idx st2 a) (stack st)"
    by (simp add: sorted_wrt_append)
  moreover have "onstack st \<subseteq> visited st2" using sub s2(4) by blast
  ultimately have stack: "wf_stack ?st3"
    using s2(1,2) s(3) unfolding wf_stack_def on3
    by (simp add: popped_fields)
  txt \<open>the colours\<close>
  from w2(2) have blk: "\<forall>x \<in> onstack st2 - insert v G. \<forall>y. (x, y) \<in> edges g \<longrightarrow> y \<in> visited st2"
    by (simp add: wf_color_def)
  have "\<forall>x \<in> onstack st - G. \<forall>y. (x, y) \<in> edges g \<longrightarrow> y \<in> visited st2"
  proof (intro ballI allI impI)
    fix x y assume x: "x \<in> onstack st - G" and e: "(x, y) \<in> edges g"
    with sub vno have "x \<in> onstack st2 - insert v G" by auto
    with blk e show "y \<in> visited st2" by blast
  qed
  with c(8) f(3) have color: "wf_color g G ?st3"
    unfolding wf_color_def on3 by (simp add: popped_fields)
  txt \<open>reachability\<close>
  from w2(3) have up: "\<forall>a \<in> onstack st2. \<forall>b \<in> onstack st2. idx st2 a \<le> idx st2 b \<longrightarrow> reaches g a b"
    and gr: "\<forall>z \<in> onstack st2. \<exists>r \<in> insert v G. idx st2 r \<le> idx st2 z \<and> reaches g z r"
    by (simp_all add: wf_reach_def)
  have up3: "\<forall>a \<in> onstack st. \<forall>b \<in> onstack st. idx st2 a \<le> idx st2 b \<longrightarrow> reaches g a b"
    using up sub by blast
  have gr3: "\<forall>z \<in> onstack st. \<exists>r \<in> G. idx st2 r \<le> idx st2 z \<and> reaches g z r"
  proof
    fix z assume z: "z \<in> onstack st"
    with sub gr obtain r where r: "r \<in> insert v G" "idx st2 r \<le> idx st2 z" "reaches g z r"
      by blast
    with below [OF z] have "r \<noteq> v" by auto
    with r show "\<exists>r \<in> G. idx st2 r \<le> idx st2 z \<and> reaches g z r" by blast
  qed
  from up3 gr3 have reach: "wf_reach g G ?st3"
    unfolding wf_reach_def on3 by (simp add: popped_fields)
  txt \<open>the low links\<close>
  have "\<forall>x \<in> onstack st. low st2 x \<le> idx st2 x
      \<and> (\<exists>y \<in> onstack st. idx st2 y = low st2 x \<and> reaches g x y)"
  proof
    fix x assume x: "x \<in> onstack st"
    with sub w2(4) obtain y where y: "low st2 x \<le> idx st2 x" "y \<in> onstack st2"
      "idx st2 y = low st2 x" "reaches g x y"
      by (auto simp: wf_low_def)
    have "y \<notin> set ?c"
    proof
      assume "y \<in> set ?c"
      from r(3) [OF this] y(1,3) below [OF x] show False by simp
    qed
    with y(2) r(2) have "y \<in> onstack st" by blast
    with y show "low st2 x \<le> idx st2 x
      \<and> (\<exists>y \<in> onstack st. idx st2 y = low st2 x \<and> reaches g x y)" by blast
  qed
  then have lowl: "wf_low g ?st3"
    unfolding wf_low_def on3 by (simp add: popped_fields)
  txt \<open>the components\<close>
  from sorted_idx_distinct [OF s2(5)] stk have d: "distinct ?c" by simp
  have comps: "wf_sccs g ?st3"
    by (rule wf_sccs_popped [OF w2(5) f(1) f(2) f(4) d refl]) (simp add: popped_fields)
  from stack color reach lowl comps have wf3: "wf_state g G ?st3"
    by (simp add: wf_state_def)
  from c(2) have "ext st ?st3"
    unfolding ext_def by (simp add: popped_fields)
  moreover have "low ?st3 v = idx ?st3 v" using root by (simp add: popped_fields)
  ultimately show ?thesis
    using wf3 c(3,5) unfolding post_dfs_def by (simp add: popped_fields)
qed

lemma dfs_close:
  assumes pre: "pre_dfs g G v st" and post: "post_loop g (insert v G) v (visit v st) st2"
  shows "\<exists>st'. close_component v st2 = Inr st' \<and> post_dfs g G v st st'"
proof (cases "low st2 v = idx st2 v")
  case True
  note q = post_loopD [OF post]
  from closing_facts(1) [OF pre post] obtain new where stk: "stack st2 = new @ v # stack st"
    by blast
  from close_component_root [OF wf_stateD(1) [OF q(1)] stk True]
    close_root [OF pre post True stk]
  show ?thesis by blast
next
  case False
  note q = post_loopD [OF post]
  from close_component_not_root [OF wf_stateD(1) [OF q(1)] closing_facts(5) [OF pre post] False]
    close_not_root [OF pre post False]
  show ?thesis by blast
qed

text \<open>
  Every call of \<open>dfs\<close> on a new node that every node of the stack reaches returns a
  state that satisfies the invariant again, and so does the loop.
\<close>

lemma dfs_correct:
  "\<forall>G. pre_dfs g G v st \<longrightarrow> (\<exists>st'. dfs g v st = Inr st' \<and> post_dfs g G v st st')"
  "\<forall>G. pre_loop g G u ws st \<longrightarrow> (\<exists>st'. dfs_loop g u ws st = Inr st' \<and> post_loop g G u st st')"
proof (induction g v st and g u ws st rule: dfs_dfs_loop.induct)
  case (1 graph v st)
  show ?case
  proof (intro allI impI)
    fix G assume pre: "pre_dfs graph G v st"
    from pre_loop_visit [OF pre] 1
    obtain st2 where l: "dfs_loop graph v (successors graph v) (visit v st) = Inr st2"
      and post: "post_loop graph (insert v G) v (visit v st) st2"
      by blast
    from dfs_close [OF pre post] obtain st' where "close_component v st2 = Inr st'"
      and pd: "post_dfs graph G v st st'" by blast
    with l have "dfs graph v st = Inr st'" by (simp only: dfs.simps sum.case)
    with pd show "\<exists>st'. dfs graph v st = Inr st' \<and> post_dfs graph G v st st'" by blast
  qed
next
  case (2 graph v st)
  show ?case
  proof (intro allI impI)
    fix G assume "pre_loop graph G v [] st"
    from post_loop_done [OF this]
    show "\<exists>st'. dfs_loop graph v [] st = Inr st' \<and> post_loop graph G v st st'" by simp
  qed
next
  case (3 graph v w ws st)
  show ?case
  proof (intro allI impI)
    fix G assume pre: "pre_loop graph G v (w # ws) st"
    note p = pre_loopD [OF pre]
    note s = wf_stackD [OF wf_stateD(1) [OF p(1)]]
    show "\<exists>st'. dfs_loop graph v (w # ws) st = Inr st' \<and> post_loop graph G v st st'"
    proof (cases "indices st w = None")
      case True
      then have nw: "w \<notin> visited st" by (auto simp: visited_def)
      from 3(1) [OF True] loop_new [OF pre nw]
      obtain st1 where d: "dfs graph w st = Inr st1" and pd: "post_dfs graph G w st st1"
        by blast
      let ?st2 = "relow v (low st1 w) st1"
      from loop_returned [OF pre nw pd]
      have lo: "lower v (lowlink st1 w) st1 = Inr ?st2" and pl: "pre_loop graph G v ws ?st2"
        by simp_all
      from 3(2) [OF True d lo] pl
      obtain st3 where l: "dfs_loop graph v ws ?st2 = Inr st3"
        and post: "post_loop graph G v ?st2 st3" by blast
      note q = post_dfsD [OF pd]
      have e: "ext st ?st2" using ext_trans [OF q(2) ext_relow] .
      have fr: "\<forall>x \<in> visited st - {v}. lowlink ?st2 x = lowlink st x"
        using q(4) by (simp add: lowlink_relow)
      from True d lo l have "dfs_loop graph v (w # ws) st = Inr st3"
        by (simp only: dfs_loop.simps simp_thms if_True sum.case)
      with post_loop_compose [OF e fr post] show ?thesis by blast
    next
      case False
      then have vw: "w \<in> visited st" by (auto simp: visited_def)
      then have iw: "indices st w = Some (idx st w)" by (auto simp: visited_def idx_def)
      show ?thesis
      proof (cases "w \<in> onstack st")
        case True
        let ?st2 = "relow v (idx st w) st"
        from lower_relow [OF wf_stateD(1) [OF p(1)] p(8)] iw
        have lo: "lower v (indices st w) st = Inr ?st2" by simp
        from 3(3) [OF False True lo] loop_onstack [OF pre True]
        obtain st3 where l: "dfs_loop graph v ws ?st2 = Inr st3"
          and post: "post_loop graph G v ?st2 st3" by blast
        have fr: "\<forall>x \<in> visited st - {v}. lowlink ?st2 x = lowlink st x"
          by (simp add: lowlink_relow)
        from False True lo l have "dfs_loop graph v (w # ws) st = Inr st3"
          by (simp only: dfs_loop.simps simp_thms if_True if_False sum.case)
        with post_loop_compose [OF ext_relow fr post] show ?thesis by blast
      next
        case nons: False
        from 3(4) [OF False nons] loop_finished [OF pre vw nons]
        obtain st3 where l: "dfs_loop graph v ws st = Inr st3"
          and post: "post_loop graph G v st st3" by blast
        from False nons l have "dfs_loop graph v (w # ws) st = Inr st3"
          by (simp only: dfs_loop.simps simp_thms if_False)
        with post show ?thesis by blast
      qed
    qed
  qed
qed

lemma wf_state_init: "wf_state g {} init_state"
proof -
  have v: "visited (init_state :: 'a tarjan) = {}" by (simp add: visited_def init_state_def)
  have f: "finished (init_state :: 'a tarjan) = {}" by (simp add: finished_def v)
  have "{S. is_scc g S \<and> S \<subseteq> {} \<and> nontrivial S} = {}" by (auto simp: nontrivial_def)
  then have "wf_sccs g init_state" by (simp add: wf_sccs_def f) (simp add: init_state_def)
  moreover have "wf_stack (init_state :: 'a tarjan)"
    by (simp add: wf_stack_def v) (simp add: init_state_def)
  moreover have "wf_color g {} init_state" by (simp add: wf_color_def f) (simp add: init_state_def)
  moreover have "wf_reach g {} init_state" by (simp add: wf_reach_def init_state_def)
  moreover have "wf_low g init_state" by (simp add: wf_low_def init_state_def)
  ultimately show ?thesis by (simp add: wf_state_def)
qed

lemma no_gray_empty_stack: "wf_state g {} st \<Longrightarrow> onstack st = {}"
  by (auto simp: wf_state_def wf_reach_def)

lemma visit_key_correct:
  assumes "wf_state g {} st"
  shows "\<exists>st'. visit_key g v st = Inr st' \<and> wf_state g {} st'
     \<and> visited st \<subseteq> visited st' \<and> v \<in> visited st'"
proof (cases "indices st v = None")
  case True
  then have "v \<notin> visited st" by (auto simp: visited_def)
  with assms no_gray_empty_stack [OF assms] have "pre_dfs g {} v st"
    by (simp add: pre_dfs_def)
  with dfs_correct(1) [of g v st] obtain st' where d: "dfs g v st = Inr st'"
    and p: "post_dfs g {} v st st'" by blast
  note q = post_dfsD [OF p]
  from q(2) have "visited st \<subseteq> visited st'" by (simp add: ext_def)
  moreover from True d have "visit_key g v st = Inr st'"
    unfolding visit_key_def by (simp only: if_True simp_thms)
  ultimately show ?thesis using q(1,3) by simp
next
  case False
  then have "v \<in> visited st" by (auto simp: visited_def)
  moreover from False have "visit_key g v st = Inr st"
    unfolding visit_key_def by (simp only: if_False simp_thms)
  ultimately show ?thesis using assms by simp
qed

lemma outer_loop_correct:
  assumes "wf_state g {} st"
  shows "\<exists>st'. fold_err (visit_key g) vs st = Inr st' \<and> wf_state g {} st'
     \<and> visited st \<union> set vs \<subseteq> visited st'"
  using assms
proof (induction vs arbitrary: st)
  case Nil
  then show ?case by simp
next
  case (Cons v vs)
  from visit_key_correct [OF Cons.prems, of v] obtain st1
    where 1: "visit_key g v st = Inr st1" "wf_state g {} st1" "visited st \<subseteq> visited st1"
      "v \<in> visited st1" by blast
  from Cons.IH [OF 1(2)] obtain st' where 2: "fold_err (visit_key g) vs st1 = Inr st'"
    "wf_state g {} st'" "visited st1 \<union> set vs \<subseteq> visited st'" by blast
  from 1 2 have "visited st \<union> set (v # vs) \<subseteq> visited st'" by auto
  with 1(1) 2(1,2) show ?case by simp
qed

lemma final_state:
  "\<exists>st. fold_err (visit_key g) (map fst g) init_state = Inr st
     \<and> strongly_connected_components g = Inr (sccs st)
     \<and> wf_state g {} st \<and> onstack st = {} \<and> set (map fst g) \<subseteq> visited st"
proof -
  from outer_loop_correct [OF wf_state_init, of g "map fst g"] obtain st
    where st: "fold_err (visit_key g) (map fst g) init_state = Inr st" "wf_state g {} st"
      "set (map fst g) \<subseteq> visited st" by auto
  then have "strongly_connected_components g = Inr (sccs st)"
    by (simp add: strongly_connected_components_def)
  with st no_gray_empty_stack [OF st(2)] show ?thesis by blast
qed

lemma final_components:
  "\<exists>comps. strongly_connected_components g = Inr comps \<and> distinct (concat comps)
     \<and> set ` set comps = {S. is_scc g S \<and> 2 \<le> card S}"
proof -
  from final_state [of g] obtain st
    where st: "strongly_connected_components g = Inr (sccs st)" "wf_state g {} st"
      "onstack st = {}" "set (map fst g) \<subseteq> visited st" by blast
  from wf_stateD(5) [OF st(2)] st(3)
  have d: "distinct (concat (sccs st))"
    and s: "set ` set (sccs st) = {S. is_scc g S \<and> S \<subseteq> visited st \<and> nontrivial S}"
    by (simp_all add: wf_sccs_def finished_def)
  have "{S. is_scc g S \<and> S \<subseteq> visited st \<and> nontrivial S} = {S. is_scc g S \<and> 2 \<le> card S}"
    using nontrivial_scc_visited [OF _ _ st(4)] nontrivial_card [OF finite_scc]
    by blast
  with st(1) d s show ?thesis by simp
qed

text \<open>
  The traversal looks at the graph through \<open>successors\<close> only, and a key that already has
  an index is skipped.
\<close>

lemma successors_append_empty:
  "successors (g @ map (\<lambda>w. (w, [])) extra) v = successors g v"
  (is "successors (g @ ?ext) v = _")
proof (cases "map_of g v")
  case None
  have "map_of ?ext v = None \<or> map_of ?ext v = Some []"
    by (induction extra) auto
  then have "(case map_of ?ext v of None \<Rightarrow> [] | Some ws \<Rightarrow> ws) = []"
    by (elim disjE) (simp_all only: option.case)
  with None show ?thesis by (simp add: successors_def map_add_def)
next
  case (Some ws)
  then show ?thesis by (simp add: successors_def map_add_def)
qed

lemma dfs_successors_cong:
  "(\<And>x. successors g' x = successors g x) \<Longrightarrow> dfs g v st = dfs g' v st"
  "(\<And>x. successors g' x = successors g x) \<Longrightarrow> dfs_loop g u ws st = dfs_loop g' u ws st"
proof (induction g v st and g u ws st rule: dfs_dfs_loop.induct)
  case (1 graph v st)
  from 1(1) [OF 1(2)] 1(2) [of v]
  have "dfs_loop graph v (successors graph v) (visit v st) =
      dfs_loop g' v (successors g' v) (visit v st)" by simp
  then show ?case by (simp only: dfs.simps)
next
  case (2 graph v st)
  then show ?case by simp
next
  case (3 graph v w ws st)
  note succ = 3(5)
  show ?case
  proof (cases "indices st w = None")
    case True
    from 3(1) [OF True succ] have d: "dfs graph w st = dfs g' w st" .
    show ?thesis
    proof (cases "dfs g' w st")
      case (Inl e)
      with d True show ?thesis
          by (simp only: dfs_loop.simps simp_thms if_True if_False sum.case)
    next
      case (Inr b)
      with d have db: "dfs graph w st = Inr b" by simp
      show ?thesis
      proof (cases "lower v (lowlink b w) b")
        case (Inl e)
        with Inr db True show ?thesis
          by (simp only: dfs_loop.simps simp_thms if_True if_False sum.case)
      next
        case r: (Inr ba)
        from 3(2) [OF True db r succ] Inr r db True show ?thesis
          by (simp only: dfs_loop.simps simp_thms if_True if_False sum.case)
      qed
    qed
  next
    case False
    show ?thesis
    proof (cases "w \<in> onstack st")
      case True
      show ?thesis
      proof (cases "lower v (indices st w) st")
        case (Inl e)
        with False True show ?thesis
          by (simp only: dfs_loop.simps simp_thms if_True if_False sum.case)
      next
        case (Inr b)
        from 3(3) [OF False True Inr succ] Inr False True show ?thesis
          by (simp only: dfs_loop.simps simp_thms if_True if_False sum.case)
      qed
    next
      case nons: False
      from 3(4) [OF False nons succ] False nons show ?thesis
          by (simp only: dfs_loop.simps simp_thms if_True if_False sum.case)
    qed
  qed
qed

lemma visit_key_successors_cong:
  assumes "\<And>x. successors g' x = successors g x"
  shows "visit_key g = visit_key g'"
  using dfs_successors_cong(1) [of g' g, OF assms]
  by (intro ext) (simp add: visit_key_def)

lemma fold_err_append:
  "fold_err f (xs @ ys) s = (case fold_err f xs s of Inl e \<Rightarrow> Inl e | Inr s' \<Rightarrow> fold_err f ys s')"
  by (induction xs arbitrary: s) (simp_all split: sum.splits)

lemma fold_visit_key_visited:
  "set vs \<subseteq> visited st \<Longrightarrow> fold_err (visit_key g) vs st = Inr st"
proof (induction vs)
  case Nil
  then show ?case by simp
next
  case (Cons v vs)
  then have "indices st v \<noteq> None" by (auto simp: visited_def)
  then have "visit_key g v st = Inr st"
    unfolding visit_key_def by (simp only: if_False simp_thms)
  with Cons show ?case by simp
qed

lemma final_targets_visited:
  assumes "wf_state g {} st" and "set (map fst g) \<subseteq> visited st" and "w \<in> set (successors g v)"
  shows "w \<in> visited st"
proof -
  from assms(3) have e: "(v, w) \<in> edges g" by (simp add: edges_def)
  from edge_source_is_key [OF e] assms(2) have "v \<in> visited st" by blast
  with no_gray_empty_stack [OF assms(1)] have "v \<in> finished st" by (simp add: finished_def)
  with wf_stateD(2) [OF assms(1)] e have "w \<in> finished st" by (auto simp: wf_color_def)
  then show ?thesis by (simp add: finished_def)
qed

lemma scc_append_empty_entries:
  assumes "\<forall>w \<in> set extra. \<exists>v. w \<in> set (successors g v)"
  shows "strongly_connected_components (g @ map (\<lambda>w. (w, [])) extra) =
     strongly_connected_components g"
proof -
  let ?g' = "g @ map (\<lambda>w. (w, [])) extra"
  have vk: "visit_key ?g' = visit_key g"
    by (rule visit_key_successors_cong [symmetric]) (rule successors_append_empty)
  from final_state [of g] obtain st
    where st: "fold_err (visit_key g) (map fst g) init_state = Inr st"
      "strongly_connected_components g = Inr (sccs st)" "wf_state g {} st"
      "set (map fst g) \<subseteq> visited st" by blast
  have "set extra \<subseteq> visited st"
    using assms final_targets_visited [OF st(3,4)] by blast
  from fold_visit_key_visited [OF this]
  have "fold_err (visit_key g) (map fst ?g') init_state = Inr st"
    using st(1) by (simp add: fold_err_append comp_def)
  with vk st(2) show ?thesis by (simp add: strongly_connected_components_def)
qed

lemma scc_abcd: "strongly_connected_components abcd_graph = Inr [[''C'', ''B'', ''A'']]"
  by (simp add: scc_eval_defs abcd_graph_def)

lemma scc_two_cycles:
  "strongly_connected_components two_cycles_graph = Inr [[''b'', ''a''], [''d'', ''c'']]"
  by (simp add: scc_eval_defs two_cycles_graph_def)

lemma scc_open: "strongly_connected_components open_graph = Inr [[''b'', ''a'']]"
  by (simp add: scc_eval_defs open_graph_def)

lemma is_scc_edges: "edges g' = edges g \<Longrightarrow> is_scc g' S = is_scc g S"
  by (simp add: is_scc_def reaches_def)

lemma edges_successors:
  "(\<And>v. set (successors g' v) = set (successors g v)) \<Longrightarrow> edges g' = edges g"
  by (simp add: edges_def)

lemma single_component:
  assumes "set ` set comps = {S}" and "distinct (concat comps)" and "S \<noteq> {}"
  shows "\<exists>c. comps = [c] \<and> set c = S"
proof (cases comps)
  case Nil
  with assms(1) show ?thesis by simp
next
  case (Cons c rest)
  with assms(1) have c: "set c = S" by auto
  have "rest = []"
  proof (cases rest)
    case (Cons c' rest')
    with \<open>comps = c # rest\<close> assms(1) have "set c' = S" by auto
    with c assms(3) have "set c \<inter> set c' \<noteq> {}" by auto
    with Cons \<open>comps = c # rest\<close> assms(2) show ?thesis by auto
  qed simp
  with Cons c show ?thesis by simp
qed

lemma abcd_any_order:
  assumes "\<And>v. set (successors g v) = set (successors abcd_graph v)"
  shows "\<exists>component. strongly_connected_components g = Inr [component]
      \<and> set component = {''A'', ''B'', ''C''}"
proof -
  from final_components [of abcd_graph]
  have a: "{S. is_scc abcd_graph S \<and> 2 \<le> card S} = {set [''C'', ''B'', ''A'']}"
    by (simp add: scc_abcd)
  from final_components [of g] obtain comps
    where c: "strongly_connected_components g = Inr comps" "distinct (concat comps)"
      "set ` set comps = {S. is_scc g S \<and> 2 \<le> card S}" by blast
  from is_scc_edges [OF edges_successors [of g abcd_graph, OF assms]] c(3) a
  have "set ` set comps = {set [''C'', ''B'', ''A'']}" by simp
  from single_component [OF this c(2)] obtain component
    where "comps = [component]" "set component = set [''C'', ''B'', ''A'']" by auto
  moreover have "set [''C'', ''B'', ''A''] = {''A'', ''B'', ''C''}" by auto
  ultimately show ?thesis using c(1) by (simp only:) blast
qed

lemma dcba_successors:
  "\<forall>v. set (successors dcba_graph v) = set (successors abcd_graph v)"
  by (simp add: successors_def dcba_graph_def abcd_graph_def)

section \<open>The resolver agrees with its specification\<close>

text \<open>
  Claim C4. For every dotted FQN, level and module clause, \<open>resolve_from_import\<close> takes the
  FQN's segments without the last, keeps that prefix for level 1 and for level 0, drops
  \<open>level - 1\<close> further trailing segments for a level above 1, and returns the prefix joined
  with the clause when one is supplied and the prefix alone otherwise. A supplied clause is
  a non-empty name; the empty string is treated by the code as no clause at all. The three
  examples of the specification evaluate as stated.
\<close>

theorem resolve_from_import_spec:
  "(module \<noteq> Some [] \<longrightarrow>
      resolve_from_import fqn level module = resolveRelative_spec fqn level module)
   \<and> resolve_from_import fqn level (Some []) = resolve_from_import fqn level None
   \<and> resolve_from_import ''a.b.c'' 1 (Some ''d'') = ''a.b.d''
   \<and> resolve_from_import ''a.b.c'' 2 (Some ''d'') = ''a.d''
   \<and> resolve_from_import ''a.b.c'' 0 (Some ''x.y'') = ''a.b.x.y''"
proof -
  have gen: "module \<noteq> Some [] \<longrightarrow>
      resolve_from_import fqn level module = resolveRelative_spec fqn level module"
    by (cases "1 < level")
       (auto simp: resolve_from_import_def resolveRelative_spec_def Let_def
          slice_to_minus_one slice_to_negative [simplified] split: option.splits)
  have emp: "resolve_from_import fqn level (Some []) = resolve_from_import fqn level None"
    by (simp add: resolve_from_import_def Let_def)
  have e1: "resolve_from_import ''a.b.c'' 1 (Some ''d'') = ''a.b.d''"
    by (simp add: resolve_from_import_def slice_to_def Let_def)
  have e2: "resolve_from_import ''a.b.c'' 2 (Some ''d'') = ''a.d''"
    by (simp add: resolve_from_import_def slice_to_def Let_def)
  have e3: "resolve_from_import ''a.b.c'' 0 (Some ''x.y'') = ''a.b.x.y''"
    by (simp add: resolve_from_import_def slice_to_def Let_def)
  from gen emp e1 e2 e3 show ?thesis by blast
qed

theorem resolve_from_import_spec_witness:
  "Some ''pkg'' \<noteq> Some []
   \<and> resolve_from_import ''a.b.c.d'' 3 (Some ''pkg'') = ''a.pkg''
   \<and> resolveRelative_spec ''a.b.c.d'' 3 (Some ''pkg'') = ''a.pkg''"
proof -
  have r: "resolveRelative_spec ''a.b.c.d'' 3 (Some ''pkg'') = ''a.pkg''"
    by (simp add: resolveRelative_spec_def drop_trailing_def Let_def)
  from resolve_from_import_spec [of "Some ''pkg''" "''a.b.c.d''" 3] r
  show ?thesis by simp
qed

section \<open>The classifier partitions the raw imports\<close>

text \<open>
  Claim C2. After classification, the internal and the external imports of every module
  record together hold exactly the elements of the record's raw import list, as multisets.
  No occurrence goes to both lists: the two lists have no element in common, and each is
  the raw list restricted to the elements of that list. Within each list the elements are
  in the relative order of the raw list.
\<close>

theorem categorize_imports_partition:
  "\<forall>(fqn, data) \<in> set (module_info (categorize_imports s)).
     \<exists>internal external.
       internal_imports data = Some internal \<and> external_imports data = Some external
       \<and> mset internal + mset external = mset (imports data)
       \<and> set internal \<inter> set external = {}
       \<and> internal = filter (\<lambda>t. t \<in> set internal) (imports data)
       \<and> external = filter (\<lambda>t. t \<in> set external) (imports data)
       \<and> subseq internal (imports data) \<and> subseq external (imports data)"
proof (clarify)
  fix fqn data
  assume "(fqn, data) \<in> set (module_info (categorize_imports s))"
  then obtain data0 where d: "data = categorize_data s data0"
    using module_info_categorize by blast
  let ?raw = "imports data0"
  let ?i = "filter (is_internal s) ?raw"
  let ?e = "filter (\<lambda>n. \<not> is_internal s n) ?raw"
  have raw: "imports data = ?raw" and i: "internal_imports data = Some ?i"
    and e: "external_imports data = Some ?e"
    by (simp_all add: d categorize_data_eq)
  have fi: "?i = filter (\<lambda>t. t \<in> set ?i) ?raw"
    by (rule filter_cong) auto
  have fe: "?e = filter (\<lambda>t. t \<in> set ?e) ?raw"
    by (rule filter_cong) auto
  have "mset ?i + mset ?e = mset ?raw"
    by (rule mset_filter_partition)
  moreover have "set ?i \<inter> set ?e = {}" by auto
  moreover have "subseq ?i ?raw" "subseq ?e ?raw" by simp_all
  ultimately show "\<exists>internal external.
       internal_imports data = Some internal \<and> external_imports data = Some external
       \<and> mset internal + mset external = mset (imports data)
       \<and> set internal \<inter> set external = {}
       \<and> internal = filter (\<lambda>t. t \<in> set internal) (imports data)
       \<and> external = filter (\<lambda>t. t \<in> set external) (imports data)
       \<and> subseq internal (imports data) \<and> subseq external (imports data)"
    using raw i e fi fe by (intro exI [of _ ?i] exI [of _ ?e]) (simp only: simp_thms)
qed

text \<open>
  The property at a record with the raw imports \<open>os, pkg.util, os, pkg\<close>.
\<close>

theorem categorize_imports_partition_witness:
  "(''pkg.mod'',
       \<lparr>path = [''proj'', ''pkg'', ''mod.py''], imports = [''os'', ''pkg.util'', ''os'', ''pkg''],
        internal_imports = Some [''pkg.util'', ''pkg''], external_imports = Some [''os'', ''os'']\<rparr>)
     \<in> set (module_info (categorize_imports example_scanner))
   \<and> mset [''pkg.util'', ''pkg''] + mset [''os'', ''os''] = mset [''os'', ''pkg.util'', ''os'', ''pkg'']
   \<and> subseq [''pkg.util'', ''pkg''] [''os'', ''pkg.util'', ''os'', ''pkg'']
   \<and> subseq [''os'', ''os''] [''os'', ''pkg.util'', ''os'', ''pkg'']"
  using categorize_imports_partition [of example_scanner]
  by (simp add: example_categorized)

text \<open>
  Claim C3. A target of a record's raw import list is classified internal if and only if
  it is a member of \<open>all_local_modules\<close> or its first dotted segment is a member of
  \<open>local_packages\<close>, and external otherwise.
\<close>

theorem categorize_imports_rule:
  "\<forall>(fqn, data) \<in> set (module_info (categorize_imports s)).
     \<exists>internal external.
       internal_imports data = Some internal \<and> external_imports data = Some external
       \<and> (\<forall>t \<in> set (imports data).
             (t \<in> set internal \<longleftrightarrow>
                t \<in> all_local_modules (categorize_imports s)
                \<or> first_segment t \<in> local_packages (categorize_imports s))
           \<and> (t \<in> set external \<longleftrightarrow>
                \<not> (t \<in> all_local_modules (categorize_imports s)
                   \<or> first_segment t \<in> local_packages (categorize_imports s))))"
proof (clarify)
  fix fqn data
  assume "(fqn, data) \<in> set (module_info (categorize_imports s))"
  then obtain data0 where d: "data = categorize_data s data0"
    using module_info_categorize by blast
  have cat: "all_local_modules (categorize_imports s) = all_local_modules s"
    "local_packages (categorize_imports s) = local_packages s"
    by (simp_all add: categorize_imports_def)
  show "\<exists>internal external.
       internal_imports data = Some internal \<and> external_imports data = Some external
       \<and> (\<forall>t \<in> set (imports data).
             (t \<in> set internal \<longleftrightarrow>
                t \<in> all_local_modules (categorize_imports s)
                \<or> first_segment t \<in> local_packages (categorize_imports s))
           \<and> (t \<in> set external \<longleftrightarrow>
                \<not> (t \<in> all_local_modules (categorize_imports s)
                   \<or> first_segment t \<in> local_packages (categorize_imports s))))"
    unfolding cat d categorize_data_eq
    by (simp add: is_internal_def hd_split_dots)
qed

text \<open>
  The rule at the same record: \<open>pkg.util\<close> is a local module, \<open>pkg\<close> a local package,
  and \<open>os\<close> neither.
\<close>

theorem categorize_imports_rule_witness:
  "(''pkg.mod'',
       \<lparr>path = [''proj'', ''pkg'', ''mod.py''], imports = [''os'', ''pkg.util'', ''os'', ''pkg''],
        internal_imports = Some [''pkg.util'', ''pkg''], external_imports = Some [''os'', ''os'']\<rparr>)
     \<in> set (module_info (categorize_imports example_scanner))
   \<and> ''pkg.util'' \<in> all_local_modules (categorize_imports example_scanner)
   \<and> first_segment ''pkg'' \<in> local_packages (categorize_imports example_scanner)
   \<and> ''os'' \<notin> all_local_modules (categorize_imports example_scanner)
   \<and> first_segment ''os'' \<notin> local_packages (categorize_imports example_scanner)"
  using categorize_imports_rule [of example_scanner]
  by (simp add: example_categorized)
     (simp add: categorize_imports_def example_scanner_def first_segment_def)

section \<open>A scan whose project root is missing\<close>

text \<open>
  Claim C5 says that after a scan whose project root is missing the module records, the
  catalog and the dependency graph are all empty, whatever an earlier scan stored. The
  code clears the module records and returns before it reaches the statements that clear
  the catalog: scanning a tree with the package \<open>pkg\<close> and then scanning with the root
  gone returns without raising, with no module record and an empty graph, but with
  \<open>local_packages\<close> and \<open>all_local_modules\<close> as the first scan left them.
\<close>

theorem scan_missing_root_keeps_catalog:
  "scan example_fs fresh_scanner = Inr scanned_example
   \<and> scan (\<lambda>p. None) scanned_example = Inr rescanned_example
   \<and> module_info rescanned_example = []
   \<and> build_graph rescanned_example = []
   \<and> local_packages rescanned_example = {''pkg''}
   \<and> all_local_modules rescanned_example = {''main'', ''pkg.__init__'', ''pkg.mod''}
   \<and> local_packages rescanned_example \<noteq> {}
   \<and> all_local_modules rescanned_example \<noteq> {}"
proof -
  have "scan (\<lambda>p. None) scanned_example = Inr rescanned_example"
    by (simp add: scan_def scanned_example_def rescanned_example_def)
  moreover have "build_graph rescanned_example = []"
    by (simp add: build_graph_def rescanned_example_def)
  ultimately show ?thesis
    using scan_example by (simp add: rescanned_example_def)
qed

section \<open>The order of the raw imports\<close>

text \<open>
  Claim C6, as the code has it. Scanning a file that parses appends to the record's raw
  import list one entry per name of each plain import statement and one resolved entry per
  from-style import, duplicates kept, in the order in which \<^verbatim>\<open>ast.walk\<close> yields the
  statements. That order is breadth-first: the nodes by nesting depth, and in the order of
  the source text within one depth. The entries are those of the statements in source
  order, as a multiset. A file that does not parse leaves the records as they are.
\<close>

theorem scan_file_walk_order:
  "map_of mi fqn = Some data \<Longrightarrow>
   scan_file None fqn mi = Inr mi
   \<and> scan_file (Some tree) fqn mi =
       Inr (AList.update fqn
              (data\<lparr>imports := imports data @ concat (map (node_entries fqn) (ast_walk tree))\<rparr>)
              mi)
   \<and> ast_walk tree = concat (map (\<lambda>k. at_depth k tree) [0..<node_count tree])
   \<and> mset (concat (map (node_entries fqn) (ast_walk tree))) =
       mset (concat (map (node_entries fqn) (source_order tree)))"
  using fold_scan_node [of mi fqn data "ast_walk tree"] ast_walk_levels [of tree]
    mset_concat_map_cong [OF mset_ast_walk, of "node_entries fqn" tree]
  by (simp add: scan_file_def)

text \<open>
  The property at a file with an import nested in a compound statement before an import at
  top level.
\<close>

theorem scan_file_walk_order_witness:
  "map_of [(''m'', new_record [''proj'', ''m.py''])] ''m'' = Some (new_record [''proj'', ''m.py''])
   \<and> scan_file (Some nested_import_tree) ''m'' [(''m'', new_record [''proj'', ''m.py''])] =
       Inr [(''m'', \<lparr>path = [''proj'', ''m.py''], imports = [''b'', ''a''],
                     internal_imports = None, external_imports = None\<rparr>)]"
proof -
  have m: "map_of [(''m'', new_record [''proj'', ''m.py''])] ''m'' = Some (new_record [''proj'', ''m.py''])"
    by simp
  have w: "ast_walk nested_import_tree =
      [Node [Node [Import [''a'']], Import [''b'']], Node [Import [''a'']], Import [''b''],
       Import [''a'']]"
    by (simp add: ast_walk_def nested_import_tree_def)
  from scan_file_walk_order [OF m, of nested_import_tree] m show ?thesis
    by (simp add: w new_record_def)
qed

text \<open>
  Claim C6 as stated fails there: for the source
  \<^verbatim>\<open>def f(): import a\<close> followed by \<^verbatim>\<open>import b\<close>, the raw import list is \<open>b, a\<close>, and
  the order of the statements in the source text is \<open>a, b\<close>.
\<close>

theorem scan_file_source_order_counterexample:
  "scan_file (Some nested_import_tree) ''m'' [(''m'', new_record [''proj'', ''m.py''])] =
     Inr [(''m'', \<lparr>path = [''proj'', ''m.py''], imports = [''b'', ''a''],
                   internal_imports = None, external_imports = None\<rparr>)]
   \<and> concat (map (node_entries ''m'') (source_order nested_import_tree)) = [''a'', ''b'']
   \<and> [''b'', ''a''] \<noteq> [''a'', ''b'']"
  by (simp add: scan_file_def ast_walk_def nested_import_tree_def new_record_def
        append_import_def)

section \<open>Files that do not parse\<close>

text \<open>
  Claim C7, as the code has it. A scan of a project root that is a directory returns
  without raising. Every source file that the walk reaches, that is every source file
  outside the directories that hold a \<^verbatim>\<open>pyvenv.cfg\<close> and outside what lies beneath them,
  has a module record under its FQN, whether it parses or not. When the FQNs of these files
  are pairwise different, the module records are exactly one per file, in the order of the
  walk: the record of a file that does not parse has its path and empty raw, internal and
  external imports, and the record of a file that parses has the classified imports of
  that file.
\<close>

theorem scan_records_walked_files:
  assumes "project_root s = Some root" and "fs root = Some d"
  shows "\<exists>s'. scan fs s = Inr s'
     \<and> (\<forall>file \<in> set (walked_files root d).
           \<exists>data. map_of (module_info s') (the_fqn root (fst file)) = Some data)
     \<and> (distinct (map (\<lambda>file. the_fqn root (fst file)) (walked_files root d)) \<longrightarrow>
           module_info s' =
             map (\<lambda>file. (the_fqn root (fst file), categorize_data s' (snd (file_record root file))))
               (walked_files root d))
     \<and> (\<forall>p. categorize_data s' (snd (file_record root (p, None))) =
              \<lparr>path = p, imports = [], internal_imports = Some [], external_imports = Some []\<rparr>)"
proof -
  let ?W = "walked_files root d"
  let ?mi = "fold (add_record root) ?W []"
  from scan_result [where s = s and fs = fs, OF assms] obtain s' where scan: "scan fs s = Inr s'"
    and mi: "module_info s' = map (\<lambda>(fqn, data). (fqn, categorize_data s' data)) ?mi"
    by blast
  have keys: "fst ` set (module_info s') = (\<lambda>file. the_fqn root (fst file)) ` set ?W"
    unfolding mi using keys_add_record [of root ?W "[]"] by (force simp: image_image)
  have a: "\<forall>file \<in> set ?W. \<exists>data. map_of (module_info s') (the_fqn root (fst file)) = Some data"
  proof
    fix item assume "item \<in> set ?W"
    with keys have "the_fqn root (fst item) \<in> fst ` set (module_info s')" by blast
    then show "\<exists>data. map_of (module_info s') (the_fqn root (fst item)) = Some data"
      by (metis domD dom_map_of_conv_image_fst)
  qed
  have b: "distinct (map (\<lambda>file. the_fqn root (fst file)) ?W) \<longrightarrow>
      module_info s' =
        map (\<lambda>file. (the_fqn root (fst file), categorize_data s' (snd (file_record root file)))) ?W"
  proof
    assume "distinct (map (\<lambda>file. the_fqn root (fst file)) ?W)"
    from fold_add_record_distinct [OF this, of "[]"] have "?mi = map (file_record root) ?W"
      by simp
    then show "module_info s' =
        map (\<lambda>file. (the_fqn root (fst file), categorize_data s' (snd (file_record root file)))) ?W"
      unfolding mi by (simp add: file_record_def)
  qed
  have c: "\<forall>p. categorize_data s' (snd (file_record root (p, None))) =
      \<lparr>path = p, imports = [], internal_imports = Some [], external_imports = Some []\<rparr>"
    by (simp add: categorize_data_eq file_record_def)
  from scan a b c show ?thesis by blast
qed

text \<open>
  A directory with one file that does not parse and one that does gives two module records,
  one with empty imports and one with the imports of the valid file.
\<close>

theorem scan_records_walked_files_witness:
  "project_root fresh_scanner = Some [''proj'']
   \<and> two_file_fs [''proj''] = Some two_file_tree
   \<and> distinct (map (\<lambda>file. the_fqn [''proj''] (fst file)) (walked_files [''proj''] two_file_tree))
   \<and> scan two_file_fs fresh_scanner = Inr two_file_scanned
   \<and> length (module_info two_file_scanned) = length (walked_files [''proj''] two_file_tree)"
proof -
  have r: "project_root fresh_scanner = Some [''proj'']"
    by (simp add: fresh_scanner_def)
  have f: "two_file_fs [''proj''] = Some two_file_tree"
    by (simp add: two_file_fs_def)
  have d: "distinct (map (\<lambda>file. the_fqn [''proj''] (fst file))
      (walked_files [''proj''] two_file_tree))"
    by (simp add: walked_two_files)
  from scan_records_walked_files [where s = fresh_scanner and fs = two_file_fs, OF r f] d
  have "length (module_info two_file_scanned) = length (walked_files [''proj''] two_file_tree)"
    by (auto simp: scan_two_files)
  with r f d scan_two_files show ?thesis by simp
qed

text \<open>
  Claim C7 as stated fails for a tree with one invalid and one valid source file in two
  cases. When the invalid file lies in a directory with a \<^verbatim>\<open>pyvenv.cfg\<close>, the scan gives
  one module record and none for the invalid file. When the invalid file \<^verbatim>\<open>a.b.py\<close> and the
  valid file \<^verbatim>\<open>a/b.py\<close> have the same FQN \<open>a.b\<close>, the scan gives one module record, with
  the path and the imports of the valid file.
\<close>

theorem scan_unparsable_counterexample:
  "scan venv_bad_fs fresh_scanner = Inr venv_bad_scanned
   \<and> length (module_info venv_bad_scanned) = 1
   \<and> map_of (module_info venv_bad_scanned) ''env.bad'' = None
   \<and> scan clash_fs fresh_scanner = Inr clash_scanned
   \<and> length (module_info clash_scanned) = 1
   \<and> map_of (module_info clash_scanned) ''a.b'' =
       Some \<lparr>path = [''proj'', ''a'', ''b.py''], imports = [''os''],
             internal_imports = Some [], external_imports = Some [''os'']\<rparr>"
proof -
  have "scan venv_bad_fs fresh_scanner = Inr venv_bad_scanned"
    by (simp add: scan_eval_defs venv_bad_fs_def venv_bad_tree_def fresh_scanner_def
          venv_bad_scanned_def Let_def)
  moreover have "scan clash_fs fresh_scanner = Inr clash_scanned"
    by (simp add: scan_eval_defs clash_fs_def clash_tree_def fresh_scanner_def
          clash_scanned_def Let_def)
  ultimately show ?thesis
    by (simp add: venv_bad_scanned_def clash_scanned_def)
qed

section \<open>Directories of virtual environments\<close>

text \<open>
  Claim C8. For every directory of the scanned tree that holds a \<^verbatim>\<open>pyvenv.cfg\<close>, no module
  record that the scan creates has the path of a file in that directory or beneath it.
\<close>

theorem scan_skips_venv:
  assumes "scan fs s = Inr s'" and "project_root s = Some root" and "fs root = Some d"
    and "distinct_names d"
    and "(v, vd) \<in> set (os_walk (\<lambda>_. False) root d)" and "has_file ''pyvenv.cfg'' vd"
    and "(fqn, data) \<in> set (module_info s')"
  shows "\<not> strict_prefix v (path data)"
proof -
  from scan_result [where s = s and fs = fs, OF assms(2,3)] assms(1)
  have mi: "module_info s' =
      map (\<lambda>(fqn, data). (fqn, categorize_data s' data))
        (fold (add_record root) (walked_files root d) [])"
    by auto
  from assms(7) obtain data0
    where d0: "(fqn, data0) \<in> set (fold (add_record root) (walked_files root d) [])"
      and data: "data = categorize_data s' data0"
    unfolding mi by auto
  from paths_add_record [OF d0] obtain item
    where item: "item \<in> set (walked_files root d)" and p: "path data0 = fst item"
    by auto
  from walked_files_paths [OF item] obtain dirpath sub name
    where w: "(dirpath, sub) \<in> set (os_walk (has_file ''pyvenv.cfg'') root d)"
      and nm: "\<not> has_file ''pyvenv.cfg'' sub" and f: "fst item = dirpath @ [name]"
    by blast
  from walk_avoids_pruned [OF assms(4) w nm assms(5,6)] have "\<not> prefix v dirpath" .
  moreover have "path data = dirpath @ [name]"
    using p f by (simp add: data categorize_data_eq)
  ultimately show ?thesis by (auto simp: strict_prefix_def)
qed

text \<open>
  The property at a tree whose directory \<open>env\<close> holds a \<^verbatim>\<open>pyvenv.cfg\<close> and a valid source
  file: the only module record is that of \<open>main.py\<close>.
\<close>

theorem scan_skips_venv_witness:
  "scan venv_fs fresh_scanner = Inr venv_scanned
   \<and> project_root fresh_scanner = Some [''proj'']
   \<and> venv_fs [''proj''] = Some venv_tree
   \<and> distinct_names venv_tree
   \<and> ([''proj'', ''env''], venv_dir) \<in> set (os_walk (\<lambda>_. False) [''proj''] venv_tree)
   \<and> has_file ''pyvenv.cfg'' venv_dir
   \<and> module_info venv_scanned =
       [(''main'', \<lparr>path = [''proj'', ''main.py''], imports = [''os''],
                    internal_imports = Some [], external_imports = Some [''os'']\<rparr>)]
   \<and> \<not> strict_prefix [''proj'', ''env''] [''proj'', ''main.py'']"
proof -
  have r: "project_root fresh_scanner = Some [''proj'']"
    by (simp add: fresh_scanner_def)
  have f: "venv_fs [''proj''] = Some venv_tree"
    by (simp add: venv_fs_def)
  have dn: "distinct_names venv_tree"
    by (simp add: venv_tree_def venv_dir_def)
  have w: "([''proj'', ''env''], venv_dir) \<in> set (os_walk (\<lambda>_. False) [''proj''] venv_tree)"
    by (simp add: venv_tree_def venv_dir_def)
  have h: "has_file ''pyvenv.cfg'' venv_dir"
    by (simp add: has_file_def venv_dir_def)
  have m: "module_info venv_scanned =
       [(''main'', \<lparr>path = [''proj'', ''main.py''], imports = [''os''],
                    internal_imports = Some [], external_imports = Some [''os'']\<rparr>)]"
    by (simp add: venv_scanned_def)
  have "(''main'', \<lparr>path = [''proj'', ''main.py''], imports = [''os''],
                    internal_imports = Some [], external_imports = Some [''os'']\<rparr>)
        \<in> set (module_info venv_scanned)"
    by (simp add: m)
  from scan_skips_venv [where s = fresh_scanner and fs = venv_fs, OF scan_venv r f dn w h this]
  have "\<not> strict_prefix [''proj'', ''env''] [''proj'', ''main.py'']" by simp
  with scan_venv r f dn w h m show ?thesis by blast
qed

section \<open>The components that the cycle detector returns\<close>

text \<open>
  Claim C1. For every graph, given as the dictionary from a node to its successors in any
  key order and any iteration order of the successor sets, \<open>strongly_connected_components\<close>
  returns, each once and without a repeated node, exactly the strongly connected components
  that have two or more members: every returned list is a maximal set of nodes that reach
  one another, and a component with one member is not returned. On the graph
  \<open>{A:{B}, B:{C}, C:{A}, D:{}}\<close> it returns one component, with the members \<open>A, B, C\<close>,
  and no component with \<open>D\<close>; so it does on every dictionary with these successor sets,
  whatever the order of its keys.
\<close>

theorem tarjan_components_correct:
  "(\<exists>comps. strongly_connected_components g = Inr comps \<and> distinct (concat comps)
      \<and> set ` set comps = {S. is_scc g S \<and> 2 \<le> card S})
   \<and> (\<exists>component. strongly_connected_components abcd_graph = Inr [component]
      \<and> set component = {''A'', ''B'', ''C''} \<and> ''D'' \<notin> set component)
   \<and> ((\<forall>v. set (successors g' v) = set (successors abcd_graph v)) \<longrightarrow>
        (\<exists>component. strongly_connected_components g' = Inr [component]
           \<and> set component = {''A'', ''B'', ''C''} \<and> ''D'' \<notin> set component))"
proof -
  have 1: "\<exists>component. strongly_connected_components abcd_graph = Inr [component]
      \<and> set component = {''A'', ''B'', ''C''} \<and> ''D'' \<notin> set component"
    by (rule exI [of _ "[''C'', ''B'', ''A'']"]) (auto simp: scc_abcd)
  have 2: "(\<forall>v. set (successors g' v) = set (successors abcd_graph v)) \<longrightarrow>
        (\<exists>component. strongly_connected_components g' = Inr [component]
           \<and> set component = {''A'', ''B'', ''C''} \<and> ''D'' \<notin> set component)"
  proof
    assume "\<forall>v. set (successors g' v) = set (successors abcd_graph v)"
    then have "\<exists>component. strongly_connected_components g' = Inr [component]
      \<and> set component = {''A'', ''B'', ''C''}" by (intro abcd_any_order) simp
    then obtain component where "strongly_connected_components g' = Inr [component]"
      "set component = {''A'', ''B'', ''C''}" by blast
    moreover from this have "''D'' \<notin> set component" by simp
    ultimately show "\<exists>component. strongly_connected_components g' = Inr [component]
           \<and> set component = {''A'', ''B'', ''C''} \<and> ''D'' \<notin> set component" by blast
  qed
  from final_components [of g] 1 2 show ?thesis by blast
qed

text \<open>
  The property at that graph: the returned list is a strongly connected component with
  three members; and at the graph with the keys in the opposite order.
\<close>

theorem tarjan_components_correct_witness:
  "strongly_connected_components abcd_graph = Inr [[''C'', ''B'', ''A'']]
   \<and> is_scc abcd_graph {''A'', ''B'', ''C''} \<and> 2 \<le> card {''A'', ''B'', ''C''}
   \<and> (\<forall>v. set (successors dcba_graph v) = set (successors abcd_graph v))
   \<and> (\<exists>component. strongly_connected_components dcba_graph = Inr [component]
         \<and> set component = {''A'', ''B'', ''C''})"
proof -
  note inst = tarjan_components_correct [of abcd_graph dcba_graph]
  from inst [THEN conjunct1] obtain comps
    where c: "strongly_connected_components abcd_graph = Inr comps"
      "set ` set comps = {S. is_scc abcd_graph S \<and> 2 \<le> card S}"
    by blast
  from c(1) have "comps = [[''C'', ''B'', ''A'']]" by (simp add: scc_abcd)
  then have "set [''C'', ''B'', ''A''] \<in> set ` set comps" by simp
  with c(2) have "is_scc abcd_graph (set [''C'', ''B'', ''A''])
      \<and> 2 \<le> card (set [''C'', ''B'', ''A''])" by blast
  moreover have "set [''C'', ''B'', ''A''] = {''A'', ''B'', ''C''}" by auto
  ultimately have 1: "is_scc abcd_graph {''A'', ''B'', ''C''} \<and> 2 \<le> card {''A'', ''B'', ''C''}"
    by (simp only:)
  from inst [THEN conjunct2, THEN conjunct2] dcba_successors
  have "\<exists>component. strongly_connected_components dcba_graph = Inr [component]
         \<and> set component = {''A'', ''B'', ''C''} \<and> ''D'' \<notin> set component" by (rule mp)
  then have 2: "\<exists>component. strongly_connected_components dcba_graph = Inr [component]
         \<and> set component = {''A'', ''B'', ''C''}" by blast
  from scc_abcd 1 dcba_successors 2 show ?thesis by blast
qed

text \<open>
  Claim C9. For every graph the returned components are pairwise disjoint: no node is in
  two of them, and none occurs twice in one.
\<close>

theorem tarjan_components_disjoint:
  "\<exists>comps. strongly_connected_components g = Inr comps \<and> distinct (concat comps)
     \<and> (\<forall>i j. i < j \<and> j < length comps \<longrightarrow> set (comps ! i) \<inter> set (comps ! j) = {})"
proof -
  from final_components [of g] obtain comps
    where "strongly_connected_components g = Inr comps" "distinct (concat comps)" by blast
  with distinct_concat_disjoint [of comps] show ?thesis by blast
qed

text \<open>
  The property at a graph with the two cycles \<open>a, b\<close> and \<open>c, d\<close>.
\<close>

theorem tarjan_components_disjoint_witness:
  "strongly_connected_components two_cycles_graph = Inr [[''b'', ''a''], [''d'', ''c'']]
   \<and> (0::nat) < 1 \<and> 1 < length [[''b'', ''a''], [''d'', ''c'']]
   \<and> set [''b'', ''a''] \<inter> set [''d'', ''c''] = {}"
proof -
  from tarjan_components_disjoint [of two_cycles_graph]
  have "\<forall>i j. i < j \<and> j < length [[''b'', ''a''], [''d'', ''c'']]
      \<longrightarrow> set ([[''b'', ''a''], [''d'', ''c'']] ! i) \<inter> set ([[''b'', ''a''], [''d'', ''c'']] ! j) = {}"
    by (simp add: scc_two_cycles)
  then have "(0::nat) < 1 \<and> 1 < length [[''b'', ''a''], [''d'', ''c'']]
      \<longrightarrow> set ([[''b'', ''a''], [''d'', ''c'']] ! 0) \<inter> set ([[''b'', ''a''], [''d'', ''c'']] ! 1) = {}"
    by blast
  with scc_two_cycles show ?thesis by simp
qed

text \<open>
  Claim C10. For every graph, also one whose successor sets name nodes that are not keys,
  \<open>strongly_connected_components\<close> returns a result and raises nothing; a node that is
  not a key has no successors; and the result is the one for the graph in which such
  targets are keys with an empty successor set.
\<close>

theorem tarjan_total_missing_keys:
  "(\<exists>comps. strongly_connected_components g = Inr comps)
   \<and> (\<forall>w. w \<notin> set (map fst g) \<longrightarrow> successors g w = [])
   \<and> ((\<forall>w \<in> set extra. \<exists>v. w \<in> set (successors g v)) \<longrightarrow>
        strongly_connected_components (g @ map (\<lambda>w. (w, [])) extra) =
        strongly_connected_components g)"
proof -
  have "\<forall>w. w \<notin> set (map fst g) \<longrightarrow> successors g w = []"
  proof (intro allI impI)
    fix w assume "w \<notin> set (map fst g)"
    then have "map_of g w = None" by (simp add: map_of_eq_None_iff)
    then show "successors g w = []" by (simp add: successors_def)
  qed
  with final_components [of g] scc_append_empty_entries [of extra g] show ?thesis by blast
qed

text \<open>
  The property at a graph in which \<open>a\<close> has the successor \<open>x\<close> and \<open>x\<close> is not a key.
\<close>

theorem tarjan_total_missing_keys_witness:
  "''x'' \<notin> set (map fst open_graph) \<and> ''x'' \<in> set (successors open_graph ''a'')
   \<and> successors open_graph ''x'' = []
   \<and> strongly_connected_components open_graph = Inr [[''b'', ''a'']]
   \<and> strongly_connected_components (open_graph @ map (\<lambda>w. (w, [])) [''x'']) =
       Inr [[''b'', ''a'']]"
proof -
  have k: "''x'' \<notin> set (map fst open_graph)" by (simp add: open_graph_def)
  have t: "''x'' \<in> set (successors open_graph ''a'')"
    by (simp add: open_graph_def successors_def)
  then have "\<forall>w \<in> set [''x'']. \<exists>v. w \<in> set (successors open_graph v)" by auto
  with tarjan_total_missing_keys [of open_graph "[''x'']"] k
  have "successors open_graph ''x'' = []"
    and "strongly_connected_components (open_graph @ map (\<lambda>w. (w, [])) [''x'']) =
       strongly_connected_components open_graph"
    by blast+
  with k t scc_open show ?thesis by simp
qed

end
